theory Spec2Isabelle
  imports Complex_Main
begin

section \<open>Double-precision values\<close>

text \<open>
  The source computes on C doubles.  A double is modelled as a finite real, one of the
  two infinities, or NaN.  Each arithmetic operation computes the exact result of its
  finite operands and hands it to a rounding function \<open>rnd\<close>, which is a parameter of
  the whole development: it returns the double nearest to the exact result, or an
  infinity when the result overflows.  Exact arithmetic is the instance \<open>rnd = Fin\<close>;
  IEEE binary64 round-to-nearest-even is the instance \<open>rnd64\<close> defined below.
  The two zeros of IEEE are identified; a zero divisor stands for \<open>+0.0\<close>, which is
  the only zero divisor the program produces (the cast of the integer 0).
\<close>

datatype double = Fin real | PInf | NInf | NaN

type_synonym rounding = "real \<Rightarrow> double"

fun fneg :: "double \<Rightarrow> double" where
  "fneg (Fin a) = Fin (- a)"
| "fneg PInf = NInf"
| "fneg NInf = PInf"
| "fneg NaN = NaN"

fun fadd :: "rounding \<Rightarrow> double \<Rightarrow> double \<Rightarrow> double" where
  "fadd rnd NaN y = NaN"
| "fadd rnd x NaN = NaN"
| "fadd rnd PInf NInf = NaN"
| "fadd rnd NInf PInf = NaN"
| "fadd rnd PInf y = PInf"
| "fadd rnd x PInf = PInf"
| "fadd rnd NInf y = NInf"
| "fadd rnd x NInf = NInf"
| "fadd rnd (Fin a) (Fin b) = rnd (a + b)"

definition fsub :: "rounding \<Rightarrow> double \<Rightarrow> double \<Rightarrow> double" where
  "fsub rnd x y = fadd rnd x (fneg y)"

fun fmul :: "rounding \<Rightarrow> double \<Rightarrow> double \<Rightarrow> double" where
  "fmul rnd NaN y = NaN"
| "fmul rnd x NaN = NaN"
| "fmul rnd (Fin a) (Fin b) = rnd (a * b)"
| "fmul rnd (Fin a) PInf = (if a = 0 then NaN else if 0 < a then PInf else NInf)"
| "fmul rnd (Fin a) NInf = (if a = 0 then NaN else if 0 < a then NInf else PInf)"
| "fmul rnd PInf (Fin b) = (if b = 0 then NaN else if 0 < b then PInf else NInf)"
| "fmul rnd NInf (Fin b) = (if b = 0 then NaN else if 0 < b then NInf else PInf)"
| "fmul rnd PInf PInf = PInf"
| "fmul rnd PInf NInf = NInf"
| "fmul rnd NInf PInf = NInf"
| "fmul rnd NInf NInf = PInf"

fun fdiv :: "rounding \<Rightarrow> double \<Rightarrow> double \<Rightarrow> double" where
  "fdiv rnd NaN y = NaN"
| "fdiv rnd x NaN = NaN"
| "fdiv rnd (Fin a) (Fin b) =
     (if b = 0 then (if a = 0 then NaN else if 0 < a then PInf else NInf)
      else rnd (a / b))"
| "fdiv rnd (Fin a) PInf = Fin 0"
| "fdiv rnd (Fin a) NInf = Fin 0"
| "fdiv rnd PInf (Fin b) = (if 0 \<le> b then PInf else NInf)"
| "fdiv rnd NInf (Fin b) = (if 0 \<le> b then NInf else PInf)"
| "fdiv rnd PInf PInf = NaN"
| "fdiv rnd PInf NInf = NaN"
| "fdiv rnd NInf PInf = NaN"
| "fdiv rnd NInf NInf = NaN"

fun fsqrt :: "rounding \<Rightarrow> double \<Rightarrow> double" where
  "fsqrt rnd NaN = NaN"
| "fsqrt rnd PInf = PInf"
| "fsqrt rnd NInf = NaN"
| "fsqrt rnd (Fin a) = (if a < 0 then NaN else rnd (sqrt a))"

text \<open>The comparisons \<open><=\<close> and \<open><\<close> of C: false as soon as an operand is NaN.\<close>

fun fle :: "double \<Rightarrow> double \<Rightarrow> bool" where
  "fle NaN y = False"
| "fle x NaN = False"
| "fle NInf y = True"
| "fle x PInf = True"
| "fle PInf y = False"
| "fle x NInf = False"
| "fle (Fin a) (Fin b) = (a \<le> b)"

fun flt :: "double \<Rightarrow> double \<Rightarrow> bool" where
  "flt NaN y = False"
| "flt x NaN = False"
| "flt PInf y = False"
| "flt x NInf = False"
| "flt NInf y = True"
| "flt x PInf = True"
| "flt (Fin a) (Fin b) = (a < b)"

text \<open>The cast \<open><double>n\<close> of a non-negative \<open>npy_intp\<close>.\<close>

definition double_of_intp :: "rounding \<Rightarrow> nat \<Rightarrow> double" where
  "double_of_intp rnd n = rnd (real n)"

text \<open>\<open>np.finfo('f8').max\<close>, the largest finite double: \<open>(2 - 2^-52) * 2^1023\<close>.\<close>

definition dbl_max :: real where
  "dbl_max = (2 ^ 53 - 1) * 2 ^ 971"

definition finfo_f8_max :: double where
  "finfo_f8_max = Fin dbl_max"

fun is_finite :: "double \<Rightarrow> bool" where
  "is_finite (Fin a) = True"
| "is_finite PInf = False"
| "is_finite NInf = False"
| "is_finite NaN = False"

fun is_nan :: "double \<Rightarrow> bool" where
  "is_nan NaN = True"
| "is_nan (Fin a) = False"
| "is_nan PInf = False"
| "is_nan NInf = False"

section \<open>Rounding functions\<close>

text \<open>
  What the theorems below ask of the rounding function, all of it true of every IEEE
  rounding mode: zero and one are representable, rounding is monotone (so a rounded
  value is never NaN), and a real in the range of a 64-bit integer does not overflow.
  A rounding function is odd when it is symmetric about zero, as rounding to nearest
  is.
\<close>

definition rounding_sane :: "rounding \<Rightarrow> bool" where
  "rounding_sane rnd \<longleftrightarrow>
     rnd 0 = Fin 0 \<and> rnd 1 = Fin 1 \<and>
     (\<forall>x y. x \<le> y \<longrightarrow> fle (rnd x) (rnd y)) \<and>
     (\<forall>x. \<bar>x\<bar> \<le> 2 ^ 63 \<longrightarrow> is_finite (rnd x))"

definition rounding_odd :: "rounding \<Rightarrow> bool" where
  "rounding_odd rnd \<longleftrightarrow> (\<forall>x. rnd (- x) = fneg (rnd x))"

text \<open>
  IEEE binary64 rounding to nearest, ties to even: the unit in the last place of the
  binade of \<open>x\<close> (53 significant bits, least exponent \<open>-1022\<close>, so subnormals share
  the last binade), the nearest multiple of it, and overflow to an infinity when that
  multiple is beyond the largest finite double.  \<open>rounding_sane_binary64\<close> and
  \<open>rounding_odd_binary64\<close> below show that it is sane and odd.
\<close>

definition round_half_even :: "real \<Rightarrow> int" where
  "round_half_even q =
     (let f = \<lfloor>q\<rfloor>
      in if q - of_int f < 1 / 2 then f
         else if 1 / 2 < q - of_int f then f + 1
         else if even f then f else f + 1)"

definition binade :: "real \<Rightarrow> int" where
  "binade x = max \<lfloor>log 2 \<bar>x\<bar>\<rfloor> (- 1022)"

definition ulp64 :: "real \<Rightarrow> real" where
  "ulp64 x = 2 powi (binade x - 52)"

definition rnd64 :: rounding where
  "rnd64 x =
     (if x = 0 then Fin 0
      else let y = of_int (round_half_even (x / ulp64 x)) * ulp64 x
           in if dbl_max < y then PInf else if y < - dbl_max then NInf else Fin y)"

section \<open>The MDF distance of two streamlines: \<open>min_direct_flip_dist\<close>\<close>

text \<open>
  \<open>a\<close> and \<open>b\<close> are the memory the two \<open>double *\<close> arguments point to, read as
  \<open>a[k]\<close>; \<open>rows\<close> is the point count.  The two nested loops of the source are folds
  over \<open>range(rows)\<close> and \<open>range(3)\<close>; the loop-carried variables are the pairs
  \<open>(tmprow, tmprowf)\<close> and \<open>(dist, distf)\<close>.  In \<open>rows - 1 - i\<close> the subtraction never
  goes below zero inside the loop, where \<open>i < rows\<close>.
\<close>

definition mdf_coord :: "rounding \<Rightarrow> double list \<Rightarrow> double list \<Rightarrow> nat \<Rightarrow> nat \<Rightarrow>
    double \<times> double \<Rightarrow> nat \<Rightarrow> double \<times> double" where
  "mdf_coord rnd a b rows i acc j =
     (let sub = fsub rnd (a ! (i * 3 + j)) (b ! (i * 3 + j));
          subf = fsub rnd (a ! (i * 3 + j)) (b ! ((rows - 1 - i) * 3 + j))
      in (fadd rnd (fst acc) (fmul rnd sub sub), fadd rnd (snd acc) (fmul rnd subf subf)))"

definition mdf_point :: "rounding \<Rightarrow> double list \<Rightarrow> double list \<Rightarrow> nat \<Rightarrow>
    double \<times> double \<Rightarrow> nat \<Rightarrow> double \<times> double" where
  "mdf_point rnd a b rows acc i =
     (let tmp = foldl (mdf_coord rnd a b rows i) (Fin 0, Fin 0) [0..<3]
      in (fadd rnd (fst acc) (fsqrt rnd (fst tmp)), fadd rnd (snd acc) (fsqrt rnd (snd tmp))))"

definition min_direct_flip_dist :: "rounding \<Rightarrow> double list \<Rightarrow> double list \<Rightarrow> nat \<Rightarrow> double" where
  "min_direct_flip_dist rnd a b rows =
     (let acc = foldl (mdf_point rnd a b rows) (Fin 0, Fin 0) [0..<rows];
          dist = fdiv rnd (fst acc) (double_of_intp rnd rows);
          distf = fdiv rnd (snd acc) (double_of_intp rnd rows)
      in if fle dist distf then dist else distf)"

section \<open>Streamlines and their memory layout\<close>

text \<open>
  A streamline is an \<open>(N, 3)\<close> array: a list of points.  Its C-contiguous buffer lists
  the coordinates point by point.  A set of streamlines that share a point count is
  stacked into one \<open>(S * rows, 3)\<close> buffer, which is what the two bundle functions
  receive as \<open>double[:, ::1]\<close>; \<open>&buf[r, 0]\<close> is the memory from row \<open>r\<close> on.
\<close>

type_synonym point = "double \<times> double \<times> double"

definition flatten :: "point list \<Rightarrow> double list" where
  "flatten ps = concat (map (\<lambda>(x, y, z). [x, y, z]) ps)"

definition stack :: "point list list \<Rightarrow> double list" where
  "stack ss = concat (map flatten ss)"

definition row_ptr :: "double list \<Rightarrow> nat \<Rightarrow> double list" where
  "row_ptr buf r = drop (r * 3) buf"

fun finite_point :: "point \<Rightarrow> bool" where
  "finite_point (x, y, z) = (is_finite x \<and> is_finite y \<and> is_finite z)"

section \<open>The distance matrix of two bundles: \<open>_bundle_minimum_distance_matrix\<close>\<close>

text \<open>
  \<open>D\<close> is the caller's \<open>double[:, ::1]\<close>: a list of rows.  The two \<open>prange\<close> loops
  write one cell per iteration and read only the inputs, so every schedule gives the
  result of the sequential loops, which is what is modelled.
\<close>

definition set_cell :: "double list list \<Rightarrow> nat \<Rightarrow> nat \<Rightarrow> double \<Rightarrow> double list list" where
  "set_cell D i j v = D[i := (D ! i)[j := v]]"

definition bmdm_cell :: "rounding \<Rightarrow> double list \<Rightarrow> double list \<Rightarrow> nat \<Rightarrow> nat \<Rightarrow>
    double list list \<Rightarrow> nat \<Rightarrow> double list list" where
  "bmdm_cell rnd static moving rows i D j =
     set_cell D i j (min_direct_flip_dist rnd (row_ptr static (i * rows))
                                              (row_ptr moving (j * rows)) rows)"

definition bmdm_row :: "rounding \<Rightarrow> double list \<Rightarrow> double list \<Rightarrow> nat \<Rightarrow> nat \<Rightarrow>
    double list list \<Rightarrow> nat \<Rightarrow> double list list" where
  "bmdm_row rnd static moving moving_size rows D i =
     foldl (bmdm_cell rnd static moving rows i) D [0..<moving_size]"

definition bundle_minimum_distance_matrix :: "rounding \<Rightarrow> double list \<Rightarrow> double list \<Rightarrow>
    nat \<Rightarrow> nat \<Rightarrow> nat \<Rightarrow> double list list \<Rightarrow> double list list" where
  "bundle_minimum_distance_matrix rnd static moving static_size moving_size rows D =
     foldl (bmdm_row rnd static moving moving_size rows) D [0..<static_size]"

section \<open>The bundle distance without the matrix: \<open>_bundle_minimum_distance\<close>\<close>

text \<open>
  The state is the memory the function can reach, the two input buffers and the two
  blocks it allocates, and its local variables.  \<open>malloc\<close> returns a block whose
  cells hold whatever \<open>junk\<close> was there.  The outer \<open>prange\<close> loop updates the minima
  under a lock (or runs on one thread when OpenMP is absent); the sequential order is
  modelled.  The final \<open>free\<close> calls have no effect on the result.
\<close>

record bmd_state =
  stat :: "double list"
  mov :: "double list"
  min_j :: "double list"
  min_i :: "double list"
  sum_i :: double
  sum_j :: double
  tmp :: double
  dist :: double

definition malloc :: "(nat \<Rightarrow> double) \<Rightarrow> nat \<Rightarrow> double list" where
  "malloc junk n = map junk [0..<n]"

definition bmd_start :: "double list \<Rightarrow> double list \<Rightarrow> (nat \<Rightarrow> double) \<Rightarrow> nat \<Rightarrow> nat \<Rightarrow> bmd_state" where
  "bmd_start st_buf mv_buf junk static_size moving_size =
     \<lparr>stat = st_buf, mov = mv_buf,
      min_j = malloc junk static_size, min_i = malloc junk moving_size,
      sum_i = Fin 0, sum_j = Fin 0, tmp = Fin 0, dist = Fin 0\<rparr>"

definition bmd_init :: "nat \<Rightarrow> nat \<Rightarrow> bmd_state \<Rightarrow> bmd_state" where
  "bmd_init static_size moving_size s =
     (let inf = finfo_f8_max;
          s = foldl (\<lambda>s i. s\<lparr>min_j := (min_j s)[i := inf]\<rparr>) s [0..<static_size];
          s = foldl (\<lambda>s j. s\<lparr>min_i := (min_i s)[j := inf]\<rparr>) s [0..<moving_size]
      in s)"

definition bmd_pair :: "rounding \<Rightarrow> nat \<Rightarrow> nat \<Rightarrow> bmd_state \<Rightarrow> nat \<Rightarrow> bmd_state" where
  "bmd_pair rnd rows i s j =
     (let s = s\<lparr>tmp := min_direct_flip_dist rnd (row_ptr (stat s) (i * rows))
                                               (row_ptr (mov s) (j * rows)) rows\<rparr>;
          s = (if flt (tmp s) (min_j s ! i) then s\<lparr>min_j := (min_j s)[i := tmp s]\<rparr> else s);
          s = (if flt (tmp s) (min_i s ! j) then s\<lparr>min_i := (min_i s)[j := tmp s]\<rparr> else s)
      in s)"

definition bmd_scan :: "rounding \<Rightarrow> nat \<Rightarrow> nat \<Rightarrow> bmd_state \<Rightarrow> nat \<Rightarrow> bmd_state" where
  "bmd_scan rnd moving_size rows s i = foldl (bmd_pair rnd rows i) s [0..<moving_size]"

definition bmd_fold :: "rounding \<Rightarrow> nat \<Rightarrow> nat \<Rightarrow> nat \<Rightarrow> bmd_state \<Rightarrow> bmd_state" where
  "bmd_fold rnd static_size moving_size rows s =
     foldl (bmd_scan rnd moving_size rows) s [0..<static_size]"

definition bmd_sums :: "rounding \<Rightarrow> nat \<Rightarrow> nat \<Rightarrow> bmd_state \<Rightarrow> bmd_state" where
  "bmd_sums rnd static_size moving_size s =
     (let s = foldl (\<lambda>s i. s\<lparr>sum_i := fadd rnd (sum_i s) (min_j s ! i)\<rparr>) s [0..<static_size];
          s = foldl (\<lambda>s j. s\<lparr>sum_j := fadd rnd (sum_j s) (min_i s ! j)\<rparr>) s [0..<moving_size]
      in s)"

definition bmd_final :: "rounding \<Rightarrow> nat \<Rightarrow> nat \<Rightarrow> bmd_state \<Rightarrow> bmd_state" where
  "bmd_final rnd static_size moving_size s =
     (let s = s\<lparr>dist := fadd rnd (fdiv rnd (sum_i s) (double_of_intp rnd static_size))
                                (fdiv rnd (sum_j s) (double_of_intp rnd moving_size))\<rparr>
      in s\<lparr>dist := fmul rnd (fmul rnd (Fin (1 / 4)) (dist s)) (dist s)\<rparr>)"

definition bmd_run :: "rounding \<Rightarrow> double list \<Rightarrow> double list \<Rightarrow> nat \<Rightarrow> nat \<Rightarrow> nat \<Rightarrow>
    (nat \<Rightarrow> double) \<Rightarrow> bmd_state" where
  "bmd_run rnd st_buf mv_buf static_size moving_size rows junk =
     bmd_final rnd static_size moving_size
       (bmd_sums rnd static_size moving_size
         (bmd_fold rnd static_size moving_size rows
           (bmd_init static_size moving_size
             (bmd_start st_buf mv_buf junk static_size moving_size))))"

definition bundle_minimum_distance :: "rounding \<Rightarrow> double list \<Rightarrow> double list \<Rightarrow> nat \<Rightarrow> nat \<Rightarrow>
    nat \<Rightarrow> (nat \<Rightarrow> double) \<Rightarrow> double" where
  "bundle_minimum_distance rnd st_buf mv_buf static_size moving_size rows junk =
     dist (bmd_run rnd st_buf mv_buf static_size moving_size rows junk)"

section \<open>The Python entry point: \<open>distance_matrix_mdf\<close>\<close>

text \<open>
  \<open>distance_matrix_mdf\<close> works on Python objects, so it is modelled over a heap of
  objects with an allocator.  A caller's streamline is an \<open>(N, 3)\<close> array, with a flag
  that says whether it is already C-contiguous \<open>float64\<close>; \<open>np.ascontiguousarray\<close>
  returns such an array itself and a fresh copy of any other.  An object array holds
  references (or the integer 0 that \<open>np.zeros\<close> put there, \<open>None\<close> here); the
  result is a two-dimensional \<open>float64\<close> array, kept with its number of columns and
  its row-major data.  The two sequences \<open>streamlines_a\<close> and \<open>streamlines_b\<close>
  are lists of references.  Every \<open>raise\<close> is a result \<open>Inl\<close>, returned with the
  state in which it happened.  The field \<open>mdf_calls\<close> is not in the source: it counts
  the calls of \<open>min_direct_flip_dist\<close>, so that a theorem can say that none was made.
  A reference that does not lead to an \<open>(N, 3)\<close> array is outside the documented
  input and ends in \<open>TypeError\<close>.
\<close>

type_synonym addr = nat

datatype pyerror = IndexError | ValueError | TypeError

datatype pyobject =
    Streamline bool "point list"
  | ObjectArray "addr option list"
  | DoubleMatrix nat "double list"

record pystate =
  heap :: "addr \<Rightarrow> pyobject option"
  next_addr :: addr
  mdf_calls :: nat

definition alloc :: "pyobject \<Rightarrow> pystate \<Rightarrow> addr \<times> pystate" where
  "alloc obj s = (next_addr s, s\<lparr>heap := (heap s)(next_addr s \<mapsto> obj), next_addr := Suc (next_addr s)\<rparr>)"

definition np_zeros_object :: "nat \<Rightarrow> pyobject" where
  "np_zeros_object n = ObjectArray (replicate n None)"

definition np_zeros_double :: "nat \<Rightarrow> nat \<Rightarrow> pyobject" where
  "np_zeros_double n m = DoubleMatrix m (replicate (n * m) (Fin 0))"

definition shape0_of :: "pystate \<Rightarrow> addr list \<Rightarrow> nat \<Rightarrow> pyerror + nat" where
  "shape0_of s seq k =
     (if length seq \<le> k then Inl IndexError
      else case heap s (seq ! k) of
             Some (Streamline c ps) \<Rightarrow> Inr (length ps)
           | _ \<Rightarrow> Inl TypeError)"

definition ascontiguousarray :: "addr \<Rightarrow> pystate \<Rightarrow> (pyerror + addr) \<times> pystate" where
  "ascontiguousarray p s =
     (case heap s p of
        Some (Streamline c ps) \<Rightarrow>
          if c then (Inr p, s)
          else (let (q, s') = alloc (Streamline True ps) s in (Inr q, s'))
      | _ \<Rightarrow> (Inl TypeError, s))"

definition obj_setitem :: "addr \<Rightarrow> nat \<Rightarrow> addr \<Rightarrow> pystate \<Rightarrow> pystate" where
  "obj_setitem t i r s =
     (case heap s t of
        Some (ObjectArray xs) \<Rightarrow> s\<lparr>heap := (heap s)(t \<mapsto> ObjectArray (xs[i := Some r]))\<rparr>
      | _ \<Rightarrow> s)"

primrec fill_tracks :: "addr \<Rightarrow> addr list \<Rightarrow> nat list \<Rightarrow> pystate \<Rightarrow> pyerror option \<times> pystate" where
  "fill_tracks t seq [] s = (None, s)"
| "fill_tracks t seq (i # is) s =
     (case ascontiguousarray (seq ! i) s of
        (Inl e, s') \<Rightarrow> (Some e, s')
      | (Inr r, s') \<Rightarrow> fill_tracks t seq is (obj_setitem t i r s'))"

definition track_points :: "pystate \<Rightarrow> addr \<Rightarrow> nat \<Rightarrow> pyerror + point list" where
  "track_points s t i =
     (case heap s t of
        Some (ObjectArray xs) \<Rightarrow>
          if length xs \<le> i then Inl IndexError
          else (case xs ! i of
                  Some r \<Rightarrow> (case heap s r of
                               Some (Streamline c ps) \<Rightarrow> Inr ps
                             | _ \<Rightarrow> Inl TypeError)
                | None \<Rightarrow> Inl TypeError)
      | _ \<Rightarrow> Inl TypeError)"

definition dm_setitem :: "addr \<Rightarrow> nat \<Rightarrow> nat \<Rightarrow> double \<Rightarrow> pystate \<Rightarrow> pystate" where
  "dm_setitem d i j v s =
     (case heap s d of
        Some (DoubleMatrix ncols xs) \<Rightarrow>
          s\<lparr>heap := (heap s)(d \<mapsto> DoubleMatrix ncols (xs[i * ncols + j := v]))\<rparr>
      | _ \<Rightarrow> s)"

primrec dm_row :: "rounding \<Rightarrow> addr \<Rightarrow> addr \<Rightarrow> nat \<Rightarrow> nat \<Rightarrow> point list \<Rightarrow> nat list \<Rightarrow>
    pystate \<Rightarrow> pyerror option \<times> pystate" where
  "dm_row rnd tB dm t_len i t1 [] s = (None, s)"
| "dm_row rnd tB dm t_len i t1 (j # js) s =
     (case track_points s tB j of
        Inl e \<Rightarrow> (Some e, s)
      | Inr t2 \<Rightarrow>
          dm_row rnd tB dm t_len i t1 js
            (dm_setitem dm i j (min_direct_flip_dist rnd (flatten t1) (flatten t2) t_len)
               (s\<lparr>mdf_calls := Suc (mdf_calls s)\<rparr>)))"

primrec dm_rows :: "rounding \<Rightarrow> addr \<Rightarrow> addr \<Rightarrow> addr \<Rightarrow> nat \<Rightarrow> nat list \<Rightarrow> nat list \<Rightarrow>
    pystate \<Rightarrow> pyerror option \<times> pystate" where
  "dm_rows rnd tA tB dm t_len [] js s = (None, s)"
| "dm_rows rnd tA tB dm t_len (i # is) js s =
     (case track_points s tA i of
        Inl e \<Rightarrow> (Some e, s)
      | Inr t1 \<Rightarrow>
          (case dm_row rnd tB dm t_len i t1 js s of
             (Some e, s') \<Rightarrow> (Some e, s')
           | (None, s') \<Rightarrow> dm_rows rnd tA tB dm t_len is js s'))"

definition distance_matrix_mdf :: "rounding \<Rightarrow> addr list \<Rightarrow> addr list \<Rightarrow> pystate \<Rightarrow>
    (pyerror + addr) \<times> pystate" where
  "distance_matrix_mdf rnd streamlines_a streamlines_b s0 =
     (let lentA = length streamlines_a;
          lentB = length streamlines_b;
          (tracksA64, s1) = alloc (np_zeros_object lentA) s0;
          (tracksB64, s2) = alloc (np_zeros_object lentB) s1;
          (DM, s3) = alloc (np_zeros_double lentA lentB) s2
      in case shape0_of s3 streamlines_a 0 of
           Inl e \<Rightarrow> (Inl e, s3)
         | Inr na \<Rightarrow>
        (case shape0_of s3 streamlines_b 0 of
           Inl e \<Rightarrow> (Inl e, s3)
         | Inr nb \<Rightarrow>
        if na \<noteq> nb then (Inl ValueError, s3)
        else
        (case fill_tracks tracksA64 streamlines_a [0..<lentA] s3 of
           (Some e, s4) \<Rightarrow> (Inl e, s4)
         | (None, s4) \<Rightarrow>
        (case fill_tracks tracksB64 streamlines_b [0..<lentB] s4 of
           (Some e, s5) \<Rightarrow> (Inl e, s5)
         | (None, s5) \<Rightarrow>
        (case track_points s5 tracksA64 0 of
           Inl e \<Rightarrow> (Inl e, s5)
         | Inr t0 \<Rightarrow>
        (case dm_rows rnd tracksA64 tracksB64 DM (length t0) [0..<lentA] [0..<lentB] s5 of
           (Some e, s6) \<Rightarrow> (Inl e, s6)
         | (None, s6) \<Rightarrow> (Inr DM, s6)))))))"

section \<open>The specification's words\<close>

text \<open>
  The MDF distance as the specification words it: the mean, over corresponding points,
  of the Euclidean distance, for the direct and for the flipped correspondence, and the
  smaller of the two means (the direct one on a tie).  Sums are taken from left to
  right, starting from zero.
\<close>

definition fsum :: "rounding \<Rightarrow> double list \<Rightarrow> double" where
  "fsum rnd xs = foldl (fadd rnd) (Fin 0) xs"

definition fmean :: "rounding \<Rightarrow> double list \<Rightarrow> double" where
  "fmean rnd xs = fdiv rnd (fsum rnd xs) (double_of_intp rnd (length xs))"

definition fsq :: "rounding \<Rightarrow> double \<Rightarrow> double" where
  "fsq rnd d = fmul rnd d d"

fun euclid :: "rounding \<Rightarrow> point \<Rightarrow> point \<Rightarrow> double" where
  "euclid rnd (x1, y1, z1) (x2, y2, z2) =
     fsqrt rnd (fsum rnd [fsq rnd (fsub rnd x1 x2), fsq rnd (fsub rnd y1 y2),
                          fsq rnd (fsub rnd z1 z2)])"

definition mdf_spec :: "rounding \<Rightarrow> point list \<Rightarrow> point list \<Rightarrow> double" where
  "mdf_spec rnd ps qs =
     (let direct = fmean rnd (map2 (euclid rnd) ps qs);
          flipped = fmean rnd (map2 (euclid rnd) ps (rev qs))
      in if fle direct flipped then direct else flipped)"

text \<open>
  The bundle distance as the specification computes it from a distance matrix \<open>D\<close>
  with \<open>m\<close> columns: \<open>0.25 * x * x\<close>, where \<open>x\<close> is the mean of the row minima plus
  the mean of the column minima.  The minimum of an array is numpy's, which is NaN as
  soon as an element is; numpy raises on an empty array, and the theorem about this
  formula applies it to non-empty arrays only.  The square is taken as the source
  takes it, as \<open>(0.25 * x) * x\<close>.
\<close>

definition np_minimum :: "double \<Rightarrow> double \<Rightarrow> double" where
  "np_minimum x y = (if is_nan x then x else if is_nan y then y else if fle x y then x else y)"

fun amin :: "double list \<Rightarrow> double" where
  "amin [] = NaN"
| "amin (x # xs) = foldl np_minimum x xs"

definition bundle_cost :: "rounding \<Rightarrow> double \<Rightarrow> double \<Rightarrow> double" where
  "bundle_cost rnd mean_rows mean_cols =
     (let x = fadd rnd mean_rows mean_cols in fmul rnd (fmul rnd (Fin (1 / 4)) x) x)"

definition bmd_formula :: "rounding \<Rightarrow> double list list \<Rightarrow> nat \<Rightarrow> double" where
  "bmd_formula rnd D m =
     bundle_cost rnd (fmean rnd (map amin D))
                     (fmean rnd (map (\<lambda>j. amin (map (\<lambda>row. row ! j) D)) [0..<m]))"

text \<open>
  A sequence of references \<open>seq\<close> holds the streamlines \<open>pss\<close> in state \<open>s\<close> when its
  elements are allocated \<open>(N, 3)\<close> arrays with these points.
\<close>

definition holds :: "pystate \<Rightarrow> addr list \<Rightarrow> point list list \<Rightarrow> bool" where
  "holds s seq pss \<longleftrightarrow>
     length seq = length pss \<and>
     (\<forall>i<length seq. seq ! i < next_addr s \<and> (\<exists>c. heap s (seq ! i) = Some (Streamline c (pss ! i))))"

section \<open>Auxiliary notions for the proofs\<close>

fun coord :: "point \<Rightarrow> nat \<Rightarrow> double" where
  "coord (x, y, z) j = (if j = 0 then x else if j = 1 then y else z)"

definition nn_or_nan :: "double \<Rightarrow> bool" where
  "nn_or_nan x \<longleftrightarrow> is_nan x \<or> fle (Fin 0) x"

definition pair_dist :: "rounding \<Rightarrow> double list \<Rightarrow> double list \<Rightarrow> nat \<Rightarrow> nat \<Rightarrow> nat \<Rightarrow> double" where
  "pair_dist rnd static moving rows i j =
     min_direct_flip_dist rnd (row_ptr static (i * rows)) (row_ptr moving (j * rows)) rows"

definition run_min :: "double \<Rightarrow> double list \<Rightarrow> double" where
  "run_min m ts = foldl (\<lambda>m t. if flt t m then t else m) m ts"

definition upd1 :: "double \<Rightarrow> double \<Rightarrow> double" where
  "upd1 t m = (if flt t m then t else m)"

text \<open>
  What a distance that is not NaN looks like in binary64 arithmetic: not negative, and
  either \<open>+inf\<close> or at most the largest finite double.
\<close>

definition dist_like :: "double \<Rightarrow> bool" where
  "dist_like v \<longleftrightarrow> fle (Fin 0) v \<and> (v = PInf \<or> fle v finfo_f8_max)"

text \<open>Binary64 rounding in two steps: rounding to the grid, then overflow.\<close>

definition raw64 :: "real \<Rightarrow> real" where
  "raw64 x = of_int (round_half_even (x / ulp64 x)) * ulp64 x"

definition clamp64 :: "real \<Rightarrow> double" where
  "clamp64 y = (if dbl_max < y then PInf else if y < - dbl_max then NInf else Fin y)"

text \<open>
  \<open>keeps n s s'\<close>: the objects below address \<open>n\<close> are in \<open>s'\<close> what they were in \<open>s\<close>.
  \<open>tracks_ok s dm t pss\<close>: the object array \<open>t\<close> refers to arrays with the points
  \<open>pss\<close>, none of them the matrix \<open>dm\<close>.
\<close>

definition keeps :: "nat \<Rightarrow> pystate \<Rightarrow> pystate \<Rightarrow> bool" where
  "keeps n s s' \<longleftrightarrow> (\<forall>p<n. heap s' p = heap s p) \<and> (next_addr s \<le> next_addr s')"

definition tracks_ok :: "pystate \<Rightarrow> addr \<Rightarrow> addr \<Rightarrow> point list list \<Rightarrow> bool" where
  "tracks_ok s dm t pss \<longleftrightarrow> t \<noteq> dm \<and>
     (\<exists>xs. heap s t = Some (ObjectArray xs) \<and> length xs = length pss \<and>
        (\<forall>i<length pss. \<exists>q c. xs ! i = Some q \<and> q \<noteq> dm \<and>
            heap s q = Some (Streamline c (pss ! i))))"

text \<open>Inputs of the examples.\<close>

definition big :: real where
  "big = 2 ^ 600"

definition two_tracks :: pystate where
  "two_tracks = \<lparr>heap = [0 \<mapsto> Streamline True [(Fin 0, Fin 0, Fin 0)],
                          1 \<mapsto> Streamline True [(Fin 0, Fin 0, Fin 0), (Fin 1, Fin 0, Fin 0)]],
                  next_addr = 2, mdf_calls = 0\<rparr>"

definition one_each :: pystate where
  "one_each = \<lparr>heap = [0 \<mapsto> Streamline True [(Fin 0, Fin 0, Fin 0)],
                        1 \<mapsto> Streamline False [(Fin 1, Fin 0, Fin 0)]],
                next_addr = 2, mdf_calls = 0\<rparr>"

section \<open>Layout and loop lemmas\<close>

lemma flatten_Cons: "flatten (p # ps) = [fst p, fst (snd p), snd (snd p)] @ flatten ps"
  by (cases p) (simp add: flatten_def)

lemma length_flatten: "length (flatten ps) = 3 * length ps"
  by (induction ps) (auto simp: flatten_Cons, simp add: flatten_def)

lemma flatten_nth: "i < length ps \<Longrightarrow> j < 3 \<Longrightarrow> flatten ps ! (i * 3 + j) = coord (ps ! i) j"
proof (induction ps arbitrary: i)
  case Nil
  then show ?case by simp
next
  case (Cons p ps)
  obtain x y z where p: "p = (x, y, z)" by (cases p) auto
  show ?case
  proof (cases i)
    case 0
    with Cons.prems p show ?thesis
      by (auto simp: flatten_Cons nth_Cons' nth_append)
  next
    case (Suc k)
    with Cons.prems have k: "k < length ps" by simp
    have "flatten (p # ps) ! (i * 3 + j) = flatten ps ! (k * 3 + j)"
      using Suc by (simp add: flatten_Cons nth_append)
    with Cons.IH [OF k Cons.prems(2)] Suc show ?thesis by simp
  qed
qed

lemma upt3: "[0..<3] = [0, 1, 2]"
  by (simp add: upt_rec numeral_3_eq_3)

lemma mdf_point_fold:
  "foldl (mdf_point rnd a b rows) (d, f) xs =
     (foldl (fadd rnd) d (map (\<lambda>i. fsqrt rnd (fst (foldl (mdf_coord rnd a b rows i) (Fin 0, Fin 0) [0..<3]))) xs),
      foldl (fadd rnd) f (map (\<lambda>i. fsqrt rnd (snd (foldl (mdf_coord rnd a b rows i) (Fin 0, Fin 0) [0..<3]))) xs))"
  by (induction xs arbitrary: d f) (simp_all add: mdf_point_def Let_def)

lemma direct_term:
  assumes "i < length ps" "length qs = length ps"
  shows "fsqrt rnd (fst (foldl (mdf_coord rnd (flatten ps) (flatten qs) (length ps) i) (Fin 0, Fin 0) [0..<3]))
         = euclid rnd (ps ! i) (qs ! i)"
proof -
  obtain x1 y1 z1 where p: "ps ! i = (x1, y1, z1)" by (cases "ps ! i") auto
  obtain x2 y2 z2 where q: "qs ! i = (x2, y2, z2)" by (cases "qs ! i") auto
  have a: "\<And>j. j < 3 \<Longrightarrow> flatten ps ! (i * 3 + j) = coord (ps ! i) j"
    using assms by (simp add: flatten_nth)
  have b: "\<And>j. j < 3 \<Longrightarrow> flatten qs ! (i * 3 + j) = coord (qs ! i) j"
    using assms by (simp add: flatten_nth)
  show ?thesis
    using a [of 0] a [of 1] a [of 2] b [of 0] b [of 1] b [of 2]
    by (simp add: upt3 mdf_coord_def Let_def p q fsum_def fsq_def)
qed

lemma flip_term:
  assumes "i < length ps" "length qs = length ps"
  shows "fsqrt rnd (snd (foldl (mdf_coord rnd (flatten ps) (flatten qs) (length ps) i) (Fin 0, Fin 0) [0..<3]))
         = euclid rnd (ps ! i) (rev qs ! i)"
proof -
  define k where "k = length ps - 1 - i"
  have r: "rev qs ! i = qs ! k"
    using assms by (simp add: rev_nth k_def)
  have k: "k < length qs" using assms by (simp add: k_def)
  obtain x1 y1 z1 where p: "ps ! i = (x1, y1, z1)" by (cases "ps ! i") auto
  obtain x2 y2 z2 where q: "qs ! k = (x2, y2, z2)" by (cases "qs ! k") auto
  have a: "\<And>j. j < 3 \<Longrightarrow> flatten ps ! (i * 3 + j) = coord (ps ! i) j"
    using assms by (simp add: flatten_nth)
  have b: "\<And>j. j < 3 \<Longrightarrow> flatten qs ! (k * 3 + j) = coord (qs ! k) j"
    using k by (simp add: flatten_nth)
  have "fsqrt rnd (snd (foldl (mdf_coord rnd (flatten ps) (flatten qs) (Suc (k + i)) i) (Fin 0, Fin 0) [0..<3]))
         = euclid rnd (ps ! i) (qs ! k)"
    using a [of 0] a [of 1] a [of 2] b [of 0] b [of 1] b [of 2]
    by (simp add: upt3 mdf_coord_def Let_def p q fsum_def fsq_def)
  moreover have "length ps = Suc (k + i)" using assms by (simp add: k_def)
  ultimately show ?thesis by (simp add: r)
qed

lemma map2_nth_upt:
  "length ys = length xs \<Longrightarrow> map2 f xs ys = map (\<lambda>i. f (xs ! i) (ys ! i)) [0..<length xs]"
  by (rule nth_equalityI) auto

lemma mdf_on_flatten:
  assumes "length qs = length ps"
  shows "min_direct_flip_dist rnd (flatten ps) (flatten qs) (length ps) = mdf_spec rnd ps qs"
proof -
  let ?n = "length ps"
  have d: "map (\<lambda>i. fsqrt rnd (fst (foldl (mdf_coord rnd (flatten ps) (flatten qs) ?n i) (Fin 0, Fin 0) [0..<3]))) [0..<?n]
           = map2 (euclid rnd) ps qs"
    using assms by (simp add: map2_nth_upt direct_term cong: map_cong)
  have f: "map (\<lambda>i. fsqrt rnd (snd (foldl (mdf_coord rnd (flatten ps) (flatten qs) ?n i) (Fin 0, Fin 0) [0..<3]))) [0..<?n]
           = map2 (euclid rnd) ps (rev qs)"
    using assms by (simp add: map2_nth_upt flip_term cong: map_cong)
  show ?thesis
    using assms
    by (simp add: min_direct_flip_dist_def mdf_spec_def mdf_point_fold d f fmean_def fsum_def Let_def)
qed

section \<open>Signs and special values\<close>

lemma sane_zero: "rounding_sane rnd \<Longrightarrow> rnd 0 = Fin 0"
  by (simp add: rounding_sane_def)

lemma sane_mono: "rounding_sane rnd \<Longrightarrow> x \<le> y \<Longrightarrow> fle (rnd x) (rnd y)"
  by (simp add: rounding_sane_def)

lemma sane_nonneg: "rounding_sane rnd \<Longrightarrow> 0 \<le> x \<Longrightarrow> fle (Fin 0) (rnd x)"
  using sane_mono [of rnd 0 x] by (simp add: sane_zero)

lemma sane_not_nan: "rounding_sane rnd \<Longrightarrow> \<not> is_nan (rnd x)"
  using sane_mono [of rnd x x] by (cases "rnd x") auto

lemma sane_count:
  assumes "rounding_sane rnd" "1 \<le> n"
  shows "double_of_intp rnd n = PInf \<or> (\<exists>r. double_of_intp rnd n = Fin r \<and> 1 \<le> r)"
proof -
  have "fle (rnd 1) (rnd (real n))"
    using assms by (intro sane_mono) auto
  moreover have "rnd 1 = Fin 1" using assms by (simp add: rounding_sane_def)
  ultimately show ?thesis
    by (cases "rnd (real n)") (auto simp: double_of_intp_def)
qed

lemma nn_or_nan_cases: "nn_or_nan x \<longleftrightarrow> x = NaN \<or> x = PInf \<or> (\<exists>a. x = Fin a \<and> 0 \<le> a)"
  by (cases x) (auto simp: nn_or_nan_def)

lemma nonneg_cases: "fle (Fin 0) x \<longleftrightarrow> x = PInf \<or> (\<exists>a. x = Fin a \<and> 0 \<le> a)"
  by (cases x) auto

lemma fsq_nn: "rounding_sane rnd \<Longrightarrow> nn_or_nan (fsq rnd x)"
  by (cases x) (auto simp: fsq_def nn_or_nan_def sane_nonneg)

lemma fsq_nonneg: "rounding_sane rnd \<Longrightarrow> \<not> is_nan x \<Longrightarrow> fle (Fin 0) (fsq rnd x)"
  by (cases x) (auto simp: fsq_def sane_nonneg)

lemma fsub_finite: "rounding_sane rnd \<Longrightarrow> is_finite x \<Longrightarrow> is_finite y \<Longrightarrow> \<not> is_nan (fsub rnd x y)"
  by (cases x; cases y) (auto simp: fsub_def sane_not_nan)

lemma fadd_nn: "rounding_sane rnd \<Longrightarrow> nn_or_nan x \<Longrightarrow> nn_or_nan y \<Longrightarrow> nn_or_nan (fadd rnd x y)"
  by (cases x; cases y) (auto simp: nn_or_nan_def sane_nonneg)

lemma fadd_nonneg: "rounding_sane rnd \<Longrightarrow> fle (Fin 0) x \<Longrightarrow> fle (Fin 0) y \<Longrightarrow> fle (Fin 0) (fadd rnd x y)"
  by (cases x; cases y) (auto simp: sane_nonneg)

lemma fsqrt_nn: "rounding_sane rnd \<Longrightarrow> nn_or_nan x \<Longrightarrow> nn_or_nan (fsqrt rnd x)"
  by (cases x) (auto simp: nn_or_nan_def sane_nonneg)

lemma fsqrt_nonneg: "rounding_sane rnd \<Longrightarrow> fle (Fin 0) x \<Longrightarrow> fle (Fin 0) (fsqrt rnd x)"
  by (cases x) (auto simp: sane_nonneg)

lemma fsum_nn_aux:
  "rounding_sane rnd \<Longrightarrow> nn_or_nan s \<Longrightarrow> \<forall>x\<in>set xs. nn_or_nan x \<Longrightarrow> nn_or_nan (foldl (fadd rnd) s xs)"
  by (induction xs arbitrary: s) (auto simp: fadd_nn)

lemma fsum_nonneg_aux:
  "rounding_sane rnd \<Longrightarrow> fle (Fin 0) s \<Longrightarrow> \<forall>x\<in>set xs. fle (Fin 0) x \<Longrightarrow> fle (Fin 0) (foldl (fadd rnd) s xs)"
  by (induction xs arbitrary: s) (auto simp: fadd_nonneg)

lemma fsum_nn: "rounding_sane rnd \<Longrightarrow> \<forall>x\<in>set xs. nn_or_nan x \<Longrightarrow> nn_or_nan (fsum rnd xs)"
  unfolding fsum_def by (rule fsum_nn_aux) (auto simp: nn_or_nan_def)

lemma fsum_nonneg: "rounding_sane rnd \<Longrightarrow> \<forall>x\<in>set xs. fle (Fin 0) x \<Longrightarrow> fle (Fin 0) (fsum rnd xs)"
  unfolding fsum_def by (rule fsum_nonneg_aux) auto

lemma euclid_nn: "rounding_sane rnd \<Longrightarrow> nn_or_nan (euclid rnd p q)"
  by (cases p; cases q) (auto intro!: fsqrt_nn fsum_nn fsq_nn)

lemma euclid_nonneg:
  "rounding_sane rnd \<Longrightarrow> finite_point p \<Longrightarrow> finite_point q \<Longrightarrow> fle (Fin 0) (euclid rnd p q)"
  by (cases p; cases q) (auto intro!: fsqrt_nonneg fsum_nonneg fsq_nonneg simp: fsub_finite)

lemma fdiv_count_nn:
  assumes "rounding_sane rnd" "1 \<le> n" "nn_or_nan x"
  shows "nn_or_nan (fdiv rnd x (double_of_intp rnd n))"
  using sane_count [OF assms(1,2)] assms(1,3)
  by (cases x) (auto simp: nn_or_nan_def sane_nonneg)

lemma fdiv_count_nonneg:
  assumes "rounding_sane rnd" "1 \<le> n" "real n \<le> 2 ^ 63" "fle (Fin 0) x"
  shows "fle (Fin 0) (fdiv rnd x (double_of_intp rnd n))"
proof -
  have "is_finite (rnd (real n))"
    using assms(1,3) by (simp add: rounding_sane_def)
  with sane_count [OF assms(1,2)] obtain r where "double_of_intp rnd n = Fin r" "1 \<le> r"
    by (auto simp: double_of_intp_def)
  with assms(1,4) show ?thesis
    by (cases x) (auto simp: sane_nonneg)
qed

lemma fmean_nn:
  "rounding_sane rnd \<Longrightarrow> xs \<noteq> [] \<Longrightarrow> \<forall>x\<in>set xs. nn_or_nan x \<Longrightarrow> nn_or_nan (fmean rnd xs)"
  unfolding fmean_def by (intro fdiv_count_nn fsum_nn) (auto simp: Suc_le_eq)

lemma fmean_nonneg:
  "rounding_sane rnd \<Longrightarrow> xs \<noteq> [] \<Longrightarrow> real (length xs) \<le> 2 ^ 63 \<Longrightarrow> \<forall>x\<in>set xs. fle (Fin 0) x
   \<Longrightarrow> fle (Fin 0) (fmean rnd xs)"
  unfolding fmean_def by (intro fdiv_count_nonneg fsum_nonneg) (auto simp: Suc_le_eq)

lemma map2_all:
  "(\<And>x y. x \<in> set xs \<Longrightarrow> y \<in> set ys \<Longrightarrow> P (f x y)) \<Longrightarrow> \<forall>v\<in>set (map2 f xs ys). P v"
  by (auto dest: set_zip_leftD set_zip_rightD)

lemma mdf_spec_nonneg:
  assumes "rounding_sane rnd" "ps \<noteq> []" "length qs = length ps" "real (length ps) \<le> 2 ^ 63"
    and "\<forall>p\<in>set ps. finite_point p" "\<forall>q\<in>set qs. finite_point q"
  shows "fle (Fin 0) (mdf_spec rnd ps qs)"
proof -
  have d: "fle (Fin 0) (fmean rnd (map2 (euclid rnd) ps qs))"
    using assms by (intro fmean_nonneg map2_all euclid_nonneg) auto
  have f: "fle (Fin 0) (fmean rnd (map2 (euclid rnd) ps (rev qs)))"
    using assms by (intro fmean_nonneg map2_all euclid_nonneg) auto
  from d f show ?thesis by (simp add: mdf_spec_def Let_def)
qed

lemma euclid_self: "rounding_sane rnd \<Longrightarrow> finite_point p \<Longrightarrow> euclid rnd p p = Fin 0"
  by (cases p) (auto simp: fsum_def fsq_def fsub_def sane_zero elim!: is_finite.elims)

lemma fsum_zeros_aux: "rounding_sane rnd \<Longrightarrow> \<forall>x\<in>set xs. x = Fin 0 \<Longrightarrow> foldl (fadd rnd) (Fin 0) xs = Fin 0"
  by (induction xs) (auto simp: sane_zero)

lemma map2_same: "map2 f xs xs = map (\<lambda>x. f x x) xs"
  by (induction xs) auto

lemma fmean_zeros:
  assumes "rounding_sane rnd" "xs \<noteq> []" "\<forall>x\<in>set xs. x = Fin 0"
  shows "fmean rnd xs = Fin 0"
proof -
  have "fsum rnd xs = Fin 0" using assms by (simp add: fsum_def fsum_zeros_aux)
  moreover have "1 \<le> length xs" using assms(2) by (simp add: Suc_le_eq)
  ultimately show ?thesis
    using sane_count [OF assms(1), of "length xs"] assms(1)
    by (auto simp: fmean_def sane_zero)
qed

lemma mdf_spec_reversed:
  assumes "rounding_sane rnd" "ps \<noteq> []" "\<forall>p\<in>set ps. finite_point p"
  shows "mdf_spec rnd ps (rev ps) = Fin 0"
proof -
  have f: "fmean rnd (map2 (euclid rnd) ps ps) = Fin 0"
    using assms by (intro fmean_zeros) (auto simp: map2_same euclid_self)
  have "nn_or_nan (fmean rnd (map2 (euclid rnd) ps (rev ps)))"
    using assms by (intro fmean_nn map2_all euclid_nn) auto
  then show ?thesis
    by (auto simp: mdf_spec_def Let_def f nn_or_nan_cases)
qed

section \<open>Evaluating binary64 rounding\<close>

lemma ulp64_eval:
  assumes "2 ^ k \<le> \<bar>x\<bar>" "\<bar>x\<bar> < 2 ^ Suc k" "u * 2 ^ 52 = 2 ^ k"
  shows "ulp64 x = u"
proof -
  have pos: "0 < \<bar>x\<bar>" using assms(1) by (smt (verit) zero_less_power)
  have "\<lfloor>log 2 \<bar>x\<bar>\<rfloor> = int k"
    using assms pos by (subst floor_log_eq_powr_iff) (auto simp: powr_realpow powr_add)
  then have "ulp64 x = 2 powi (int k - 52)" by (simp add: ulp64_def binade_def)
  also have "\<dots> = 2 ^ k / 2 ^ 52"
    by (simp add: power_int_diff)
  also have "\<dots> = u" using assms(3) by (simp add: field_simps)
  finally show ?thesis .
qed

lemma round_half_even_near:
  assumes "\<bar>q - of_int n\<bar> < 1 / 2 \<or> (\<bar>q - of_int n\<bar> = 1 / 2 \<and> even n)"
  shows "round_half_even q = n"
proof -
  consider "\<lfloor>q\<rfloor> = n" | "\<lfloor>q\<rfloor> = n - 1" using assms by linarith
  then show ?thesis
  proof cases
    case 1
    with assms show ?thesis
      unfolding round_half_even_def Let_def by (auto simp: abs_if split: if_splits)
  next
    case 2
    with assms show ?thesis
      unfolding round_half_even_def Let_def by (auto simp: abs_if split: if_splits)
  qed
qed

lemma rnd64_round:
  assumes "2 ^ k \<le> \<bar>x\<bar>" "\<bar>x\<bar> < 2 ^ Suc k" "u * 2 ^ 52 = 2 ^ k"
    and "\<bar>x - of_int n * u\<bar> < u / 2 \<or> (\<bar>x - of_int n * u\<bar> = u / 2 \<and> even n)"
    and "\<bar>of_int n * u\<bar> \<le> dbl_max"
  shows "rnd64 x = Fin (of_int n * u)"
proof -
  have u: "ulp64 x = u" using assms(1-3) by (rule ulp64_eval)
  have upos: "0 < u" using assms(3) by (smt (verit) zero_less_power zero_less_mult_pos2 mult_nonneg_nonpos)
  have x0: "x \<noteq> 0" using assms(1) by (smt (verit) zero_less_power)
  have "\<bar>x / u - of_int n\<bar> = \<bar>x - of_int n * u\<bar> / u"
    using upos by (simp add: field_simps abs_if)
  then have "\<bar>x / u - of_int n\<bar> < 1 / 2 \<or> (\<bar>x / u - of_int n\<bar> = 1 / 2 \<and> even n)"
    using assms(4) upos by (auto simp: field_simps)
  then have "round_half_even (x / u) = n" by (rule round_half_even_near)
  with u x0 assms(5) show ?thesis
    by (auto simp: rnd64_def Let_def abs_if split: if_splits)
qed

lemma rounding_sane_exact: "rounding_sane Fin"
  by (simp add: rounding_sane_def)

lemma upt2: "[0..<2] = [0, 1]"
  by (simp add: upt_rec)

lemma upt1: "[0..<1] = [0]"
  by (simp add: upt_rec)

lemma foldl_cong_set:
  "(\<And>acc x. x \<in> set xs \<Longrightarrow> f acc x = g acc x) \<Longrightarrow> foldl f s xs = foldl g s xs"
  by (induction xs arbitrary: s) auto

lemma mdf_coord_prefix:
  assumes "take (3 * rows) a = take (3 * rows) a'" "take (3 * rows) b = take (3 * rows) b'"
    and "i < rows" "j < 3"
  shows "mdf_coord rnd a b rows i acc j = mdf_coord rnd a' b' rows i acc j"
proof -
  have r: "\<And>k (xs :: double list) ys. k < 3 * rows \<Longrightarrow> take (3 * rows) xs = take (3 * rows) ys \<Longrightarrow> xs ! k = ys ! k"
    by (metis nth_take)
  have k1: "i * 3 + j < 3 * rows" using assms(3,4) by simp
  have k2: "(rows - 1 - i) * 3 + j < 3 * rows" using assms(3,4) by simp
  show ?thesis
    using r [OF k1 assms(1)] r [OF k1 assms(2)] r [OF k2 assms(2)]
    by (simp add: mdf_coord_def)
qed

lemma mdf_prefix:
  assumes "take (3 * rows) a = take (3 * rows) a'" "take (3 * rows) b = take (3 * rows) b'"
  shows "min_direct_flip_dist rnd a b rows = min_direct_flip_dist rnd a' b' rows"
proof -
  have "\<And>acc i. i \<in> set [0..<rows] \<Longrightarrow> mdf_point rnd a b rows acc i = mdf_point rnd a' b' rows acc i"
  proof -
    fix acc i assume "i \<in> set [0..<rows]"
    then have i: "i < rows" by simp
    have "foldl (mdf_coord rnd a b rows i) (Fin 0, Fin 0) [0..<3]
          = foldl (mdf_coord rnd a' b' rows i) (Fin 0, Fin 0) [0..<3]"
      by (rule foldl_cong_set) (use assms i in \<open>auto intro: mdf_coord_prefix\<close>)
    then show "mdf_point rnd a b rows acc i = mdf_point rnd a' b' rows acc i"
      by (simp add: mdf_point_def)
  qed
  then have "foldl (mdf_point rnd a b rows) (Fin 0, Fin 0) [0..<rows]
             = foldl (mdf_point rnd a' b' rows) (Fin 0, Fin 0) [0..<rows]"
    by (rule foldl_cong_set)
  then show ?thesis by (simp add: min_direct_flip_dist_def)
qed

lemma stack_Cons: "stack (s # ss) = flatten s @ stack ss"
  by (simp add: stack_def)

lemma stack_row_ptr:
  assumes "\<forall>s\<in>set ss. length s = rows" "i < length ss"
  shows "take (3 * rows) (row_ptr (stack ss) (i * rows)) = flatten (ss ! i)"
  using assms
proof (induction ss arbitrary: i)
  case Nil
  then show ?case by simp
next
  case (Cons s ss)
  have ls: "length (flatten s) = 3 * rows" using Cons.prems by (simp add: length_flatten)
  show ?case
  proof (cases i)
    case 0
    then show ?thesis using ls by (simp add: row_ptr_def stack_Cons)
  next
    case (Suc k)
    have "row_ptr (stack (s # ss)) (i * rows) = row_ptr (stack ss) (k * rows)"
      using ls Suc by (simp add: row_ptr_def stack_Cons algebra_simps)
    with Cons.IH [of k] Cons.prems Suc show ?thesis by simp
  qed
qed

lemma pair_dist_stack:
  assumes "\<forall>s\<in>set ss. length s = rows" "\<forall>m\<in>set ms. length m = rows" "i < length ss" "j < length ms"
  shows "pair_dist rnd (stack ss) (stack ms) rows i j
         = min_direct_flip_dist rnd (flatten (ss ! i)) (flatten (ms ! j)) rows"
  unfolding pair_dist_def
  by (rule mdf_prefix) (use assms in \<open>simp_all add: stack_row_ptr length_flatten\<close>)

lemma bmdm_cell_alt:
  "bmdm_cell rnd static moving rows i D j = D[i := (D ! i)[j := pair_dist rnd static moving rows i j]]"
  by (simp add: bmdm_cell_def set_cell_def pair_dist_def)

lemma bmdm_row_cells:
  assumes "i < length D" "n \<le> length (D ! i)"
  shows "foldl (bmdm_cell rnd static moving rows i) D [0..<n]
         = D[i := map (pair_dist rnd static moving rows i) [0..<n] @ drop n (D ! i)]"
  using assms(2)
proof (induction n)
  case 0
  then show ?case by simp
next
  case (Suc n)
  let ?row = "map (pair_dist rnd static moving rows i) [0..<n] @ drop n (D ! i)"
  have upd: "?row[n := v] = map (pair_dist rnd static moving rows i) [0..<n] @ v # drop (Suc n) (D ! i)" for v
    using Suc.prems by (simp add: list_update_append upd_conv_take_nth_drop)
  have "foldl (bmdm_cell rnd static moving rows i) D [0..<Suc n]
        = bmdm_cell rnd static moving rows i (D[i := ?row]) n"
    using Suc by simp
  also have "\<dots> = D[i := ?row[n := pair_dist rnd static moving rows i n]]"
    using assms(1) by (simp add: bmdm_cell_alt)
  finally show ?case by (simp add: upd)
qed

lemma bmdm_rows:
  assumes "\<forall>r\<in>set D. length r = m" "k \<le> length D"
  shows "foldl (bmdm_row rnd static moving m rows) D [0..<k]
         = map (\<lambda>i. map (pair_dist rnd static moving rows i) [0..<m]) [0..<k] @ drop k D"
  using assms(2)
proof (induction k)
  case 0
  then show ?case by simp
next
  case (Suc k)
  let ?done = "map (\<lambda>i. map (pair_dist rnd static moving rows i) [0..<m]) [0..<k]"
  have len: "length (D ! k) = m" using assms(1) Suc.prems by simp
  have "bmdm_row rnd static moving m rows (?done @ drop k D) k
        = (?done @ drop k D)[k := map (pair_dist rnd static moving rows k) [0..<m] @ drop m ((?done @ drop k D) ! k)]"
    unfolding bmdm_row_def
    by (rule bmdm_row_cells) (use Suc.prems len in \<open>simp_all add: nth_append\<close>)
  also have "\<dots> = ?done @ map (pair_dist rnd static moving rows k) [0..<m] # drop (Suc k) D"
    using Suc.prems len by (simp add: list_update_append nth_append upd_conv_take_nth_drop Cons_nth_drop_Suc [symmetric])
  finally show ?case using Suc by simp
qed

lemma bmdm_all:
  assumes "length D = n" "\<forall>r\<in>set D. length r = m"
  shows "bundle_minimum_distance_matrix rnd static moving n m rows D
         = map (\<lambda>i. map (pair_dist rnd static moving rows i) [0..<m]) [0..<n]"
  using bmdm_rows [OF assms(2), of n rnd static moving rows] assms(1)
  by (simp add: bundle_minimum_distance_matrix_def)

lemma bmdm_on_stack:
  assumes "\<forall>s\<in>set ss. length s = rows" "\<forall>m\<in>set ms. length m = rows"
    and "length D = length ss" "\<forall>r\<in>set D. length r = length ms"
  shows "bundle_minimum_distance_matrix rnd (stack ss) (stack ms) (length ss) (length ms) rows D
         = map (\<lambda>s. map (\<lambda>m. min_direct_flip_dist rnd (flatten s) (flatten m) rows) ms) ss"
proof -
  have "map (\<lambda>i. map (pair_dist rnd (stack ss) (stack ms) rows i) [0..<length ms]) [0..<length ss]
        = map (\<lambda>s. map (\<lambda>m. min_direct_flip_dist rnd (flatten s) (flatten m) rows) ms) ss"
    by (rule nth_equalityI, simp, rule nth_equalityI) (use assms in \<open>simp_all add: pair_dist_stack\<close>)
  with bmdm_all [OF assms(3,4)] show ?thesis by simp
qed

lemma run_min_snoc: "run_min m (ts @ [t]) = (if flt t (run_min m ts) then t else run_min m ts)"
  by (simp add: run_min_def)

lemma run_min_Nil: "run_min m [] = m"
  by (simp add: run_min_def)

text \<open>initialisation\<close>

lemma init_loop_j:
  "n \<le> length (min_j s) \<Longrightarrow>
   foldl (\<lambda>s i. s\<lparr>min_j := (min_j s)[i := v]\<rparr>) s [0..<n]
   = s\<lparr>min_j := replicate n v @ drop n (min_j s)\<rparr>"
proof (induction n)
  case 0
  then show ?case by simp
next
  case (Suc n)
  then show ?case
    by (simp add: list_update_append upd_conv_take_nth_drop replicate_append_same)
qed

lemma init_loop_i:
  "n \<le> length (min_i s) \<Longrightarrow>
   foldl (\<lambda>s i. s\<lparr>min_i := (min_i s)[i := v]\<rparr>) s [0..<n]
   = s\<lparr>min_i := replicate n v @ drop n (min_i s)\<rparr>"
proof (induction n)
  case 0
  then show ?case by simp
next
  case (Suc n)
  then show ?case
    by (simp add: list_update_append upd_conv_take_nth_drop replicate_append_same)
qed

lemma bmd_init_start:
  "bmd_init n m (bmd_start st mv junk n m)
   = \<lparr>stat = st, mov = mv, min_j = replicate n finfo_f8_max, min_i = replicate m finfo_f8_max,
      sum_i = Fin 0, sum_j = Fin 0, tmp = Fin 0, dist = Fin 0\<rparr>"
  by (simp add: bmd_init_def bmd_start_def malloc_def Let_def init_loop_j init_loop_i)

lemma bmd_pair_fields:
  "stat (bmd_pair rnd rows i s j) = stat s"
  "mov (bmd_pair rnd rows i s j) = mov s"
  "sum_i (bmd_pair rnd rows i s j) = sum_i s"
  "sum_j (bmd_pair rnd rows i s j) = sum_j s"
  "dist (bmd_pair rnd rows i s j) = dist s"
  "min_j (bmd_pair rnd rows i s j) = (min_j s)[i := upd1 (pair_dist rnd (stat s) (mov s) rows i j) (min_j s ! i)]"
  "min_i (bmd_pair rnd rows i s j) = (min_i s)[j := upd1 (pair_dist rnd (stat s) (mov s) rows i j) (min_i s ! j)]"
  by (simp_all add: bmd_pair_def Let_def pair_dist_def upd1_def)

lemma bmd_scan_aux:
  assumes "i < length (min_j s)" "n \<le> length (min_i s)"
  shows "stat (foldl (bmd_pair rnd rows i) s [0..<n]) = stat s \<and>
         mov (foldl (bmd_pair rnd rows i) s [0..<n]) = mov s \<and>
         sum_i (foldl (bmd_pair rnd rows i) s [0..<n]) = sum_i s \<and>
         sum_j (foldl (bmd_pair rnd rows i) s [0..<n]) = sum_j s \<and>
         dist (foldl (bmd_pair rnd rows i) s [0..<n]) = dist s \<and>
         min_j (foldl (bmd_pair rnd rows i) s [0..<n])
           = (min_j s)[i := run_min (min_j s ! i) (map (pair_dist rnd (stat s) (mov s) rows i) [0..<n])] \<and>
         min_i (foldl (bmd_pair rnd rows i) s [0..<n])
           = map (\<lambda>j. upd1 (pair_dist rnd (stat s) (mov s) rows i j) (min_i s ! j)) [0..<n] @ drop n (min_i s)"
  using assms(2)
proof (induction n)
  case 0
  then show ?case by (simp add: run_min_Nil)
next
  case (Suc n)
  let ?s = "foldl (bmd_pair rnd rows i) s [0..<n]"
  let ?pd = "pair_dist rnd (stat s) (mov s) rows i"
  have ih: "stat ?s = stat s" "mov ?s = mov s" "sum_i ?s = sum_i s" "sum_j ?s = sum_j s" "dist ?s = dist s"
    "min_j ?s = (min_j s)[i := run_min (min_j s ! i) (map ?pd [0..<n])]"
    "min_i ?s = map (\<lambda>j. upd1 (?pd j) (min_i s ! j)) [0..<n] @ drop n (min_i s)"
    using Suc by simp_all
  have step: "foldl (bmd_pair rnd rows i) s [0..<Suc n] = bmd_pair rnd rows i ?s n" by simp
  have mj: "min_j (bmd_pair rnd rows i ?s n)
            = (min_j s)[i := run_min (min_j s ! i) (map ?pd [0..<Suc n])]"
    using assms(1) by (simp add: bmd_pair_fields ih run_min_snoc upd1_def)
  have "(map (\<lambda>j. upd1 (?pd j) (min_i s ! j)) [0..<n] @ drop n (min_i s)) ! n = min_i s ! n"
    using Suc.prems by (simp add: nth_append)
  then have mi: "min_i (bmd_pair rnd rows i ?s n)
            = map (\<lambda>j. upd1 (?pd j) (min_i s ! j)) [0..<Suc n] @ drop (Suc n) (min_i s)"
    using Suc.prems by (simp add: bmd_pair_fields ih list_update_append upd_conv_take_nth_drop)
  show ?case
    unfolding step using mj mi by (simp add: bmd_pair_fields ih)
qed

lemma bmd_scan_fields:
  assumes "i < length (min_j s)" "m \<le> length (min_i s)"
  shows "stat (bmd_scan rnd m rows s i) = stat s"
    "mov (bmd_scan rnd m rows s i) = mov s"
    "sum_i (bmd_scan rnd m rows s i) = sum_i s"
    "sum_j (bmd_scan rnd m rows s i) = sum_j s"
    "dist (bmd_scan rnd m rows s i) = dist s"
    "min_j (bmd_scan rnd m rows s i)
       = (min_j s)[i := run_min (min_j s ! i) (map (pair_dist rnd (stat s) (mov s) rows i) [0..<m])]"
    "min_i (bmd_scan rnd m rows s i)
       = map (\<lambda>j. upd1 (pair_dist rnd (stat s) (mov s) rows i j) (min_i s ! j)) [0..<m] @ drop m (min_i s)"
  using bmd_scan_aux [OF assms, of rnd rows] by (simp_all add: bmd_scan_def)

lemma map_nth_take: "m \<le> length xs \<Longrightarrow> map (\<lambda>j. xs ! j) [0..<m] = take m xs"
  by (rule nth_equalityI) auto

lemma bmd_fold_aux:
  assumes "m \<le> length (min_i s)" "k \<le> length (min_j s)"
  shows "stat (foldl (bmd_scan rnd m rows) s [0..<k]) = stat s \<and>
         mov (foldl (bmd_scan rnd m rows) s [0..<k]) = mov s \<and>
         sum_i (foldl (bmd_scan rnd m rows) s [0..<k]) = sum_i s \<and>
         sum_j (foldl (bmd_scan rnd m rows) s [0..<k]) = sum_j s \<and>
         dist (foldl (bmd_scan rnd m rows) s [0..<k]) = dist s \<and>
         min_j (foldl (bmd_scan rnd m rows) s [0..<k])
           = map (\<lambda>i. run_min (min_j s ! i) (map (pair_dist rnd (stat s) (mov s) rows i) [0..<m])) [0..<k]
             @ drop k (min_j s) \<and>
         min_i (foldl (bmd_scan rnd m rows) s [0..<k])
           = map (\<lambda>j. run_min (min_i s ! j) (map (\<lambda>i. pair_dist rnd (stat s) (mov s) rows i j) [0..<k])) [0..<m]
             @ drop m (min_i s)"
  using assms(2)
proof (induction k)
  case 0
  then show ?case using assms(1) by (simp add: run_min_Nil map_nth_take)
next
  case (Suc k)
  let ?s = "foldl (bmd_scan rnd m rows) s [0..<k]"
  let ?pd = "pair_dist rnd (stat s) (mov s) rows"
  have ih: "stat ?s = stat s" "mov ?s = mov s" "sum_i ?s = sum_i s" "sum_j ?s = sum_j s" "dist ?s = dist s"
    "min_j ?s = map (\<lambda>i. run_min (min_j s ! i) (map (?pd i) [0..<m])) [0..<k] @ drop k (min_j s)"
    "min_i ?s = map (\<lambda>j. run_min (min_i s ! j) (map (\<lambda>i. ?pd i j) [0..<k])) [0..<m] @ drop m (min_i s)"
    using Suc by simp_all
  have lj: "k < length (min_j ?s)" using Suc.prems by (simp add: ih)
  have li: "m \<le> length (min_i ?s)" using assms(1) by (simp add: ih)
  note sc = bmd_scan_fields [OF lj li, of rnd rows]
  have step: "foldl (bmd_scan rnd m rows) s [0..<Suc k] = bmd_scan rnd m rows ?s k" by simp
  have "min_j ?s ! k = min_j s ! k" using Suc.prems by (simp add: ih nth_append)
  then have mj: "min_j (bmd_scan rnd m rows ?s k)
      = map (\<lambda>i. run_min (min_j s ! i) (map (?pd i) [0..<m])) [0..<Suc k] @ drop (Suc k) (min_j s)"
    using Suc.prems by (simp add: sc ih list_update_append upd_conv_take_nth_drop)
  have "map (\<lambda>j. upd1 (?pd k j) (min_i ?s ! j)) [0..<m]
        = map (\<lambda>j. run_min (min_i s ! j) (map (\<lambda>i. ?pd i j) [0..<Suc k])) [0..<m]"
    by (rule map_cong) (simp_all add: ih nth_append run_min_snoc upd1_def)
  then have mi: "min_i (bmd_scan rnd m rows ?s k)
      = map (\<lambda>j. run_min (min_i s ! j) (map (\<lambda>i. ?pd i j) [0..<Suc k])) [0..<m] @ drop m (min_i s)"
    using sc(7) by (simp add: ih)
  show ?case
    unfolding step using mj mi by (simp add: sc ih)
qed

lemma sum_loop_i:
  "foldl (\<lambda>s i. s\<lparr>sum_i := fadd rnd (sum_i s) (min_j s ! i)\<rparr>) s xs
   = s\<lparr>sum_i := foldl (fadd rnd) (sum_i s) (map (\<lambda>i. min_j s ! i) xs)\<rparr>"
  by (induction xs arbitrary: s) simp_all

lemma sum_loop_j:
  "foldl (\<lambda>s j. s\<lparr>sum_j := fadd rnd (sum_j s) (min_i s ! j)\<rparr>) s xs
   = s\<lparr>sum_j := foldl (fadd rnd) (sum_j s) (map (\<lambda>j. min_i s ! j) xs)\<rparr>"
  by (induction xs arbitrary: s) simp_all

lemma bmd_closed_form:
  "bundle_minimum_distance rnd st mv n m rows junk =
     bundle_cost rnd
       (fmean rnd (map (\<lambda>i. run_min finfo_f8_max (map (pair_dist rnd st mv rows i) [0..<m])) [0..<n]))
       (fmean rnd (map (\<lambda>j. run_min finfo_f8_max (map (\<lambda>i. pair_dist rnd st mv rows i j) [0..<n])) [0..<m]))"
proof -
  let ?s0 = "bmd_init n m (bmd_start st mv junk n m)"
  let ?s1 = "bmd_fold rnd n m rows ?s0"
  let ?rows = "map (\<lambda>i. run_min finfo_f8_max (map (pair_dist rnd st mv rows i) [0..<m])) [0..<n]"
  let ?cols = "map (\<lambda>j. run_min finfo_f8_max (map (\<lambda>i. pair_dist rnd st mv rows i j) [0..<n])) [0..<m]"
  have s0: "stat ?s0 = st" "mov ?s0 = mv" "min_j ?s0 = replicate n finfo_f8_max"
    "min_i ?s0 = replicate m finfo_f8_max" "sum_i ?s0 = Fin 0" "sum_j ?s0 = Fin 0"
    by (simp_all add: bmd_init_start)
  have "m \<le> length (min_i ?s0)" "n \<le> length (min_j ?s0)" by (simp_all add: s0)
  from bmd_fold_aux [OF this, of rnd rows]
  have s1: "sum_i ?s1 = Fin 0" "sum_j ?s1 = Fin 0" "min_j ?s1 = ?rows" "min_i ?s1 = ?cols"
    by (simp_all add: bmd_fold_def s0 cong: map_cong)
  have r: "map (\<lambda>i. ?rows ! i) [0..<n] = ?rows"
    by (rule nth_equalityI) simp_all
  have c: "map (\<lambda>j. ?cols ! j) [0..<m] = ?cols"
    by (rule nth_equalityI) simp_all
  have "bmd_sums rnd n m ?s1 = ?s1\<lparr>sum_i := fsum rnd ?rows, sum_j := fsum rnd ?cols\<rparr>"
    unfolding bmd_sums_def Let_def sum_loop_i sum_loop_j
    by (simp add: s1 r c fsum_def del: map_map)
  then show ?thesis
    by (simp add: bundle_minimum_distance_def bmd_run_def bmd_final_def Let_def
          bundle_cost_def fmean_def)
qed

lemma le_max_cases: "fle t finfo_f8_max \<longleftrightarrow> t = NInf \<or> (\<exists>a. t = Fin a \<and> a \<le> dbl_max)"
  by (cases t) (auto simp: finfo_f8_max_def)

lemma upd1_minimum: "\<not> is_nan m \<Longrightarrow> \<not> is_nan t \<Longrightarrow> upd1 t m = np_minimum m t"
  by (cases m; cases t) (auto simp: upd1_def np_minimum_def)

lemma np_minimum_not_nan: "\<not> is_nan m \<Longrightarrow> \<not> is_nan t \<Longrightarrow> \<not> is_nan (np_minimum m t)"
  by (simp add: np_minimum_def)

lemma run_min_foldl_minimum:
  "\<not> is_nan m \<Longrightarrow> \<forall>t\<in>set ts. \<not> is_nan t \<Longrightarrow> run_min m ts = foldl np_minimum m ts"
proof (induction ts arbitrary: m)
  case Nil
  then show ?case by (simp add: run_min_def)
next
  case (Cons t ts)
  have "run_min m (t # ts) = run_min (upd1 t m) ts" by (simp add: run_min_def upd1_def)
  with Cons show ?case by (simp add: upd1_minimum np_minimum_not_nan)
qed

lemma run_min_amin:
  assumes "ts \<noteq> []" "\<forall>t\<in>set ts. fle t finfo_f8_max"
  shows "run_min finfo_f8_max ts = amin ts"
proof -
  obtain t ts' where ts: "ts = t # ts'" using assms(1) by (cases ts) auto
  have nn: "\<forall>t\<in>set ts. \<not> is_nan t" using assms(2) by (auto simp: le_max_cases)
  have "fle t finfo_f8_max" using assms(2) ts by simp
  then have "upd1 t finfo_f8_max = t"
    by (cases t) (auto simp: upd1_def finfo_f8_max_def)
  then have "run_min finfo_f8_max ts = run_min t ts'"
    by (simp add: ts run_min_def upd1_def)
  with nn ts show ?thesis by (simp add: run_min_foldl_minimum)
qed

lemma bmd_agrees_with_matrix:
  assumes "\<forall>s\<in>set ss. length s = rows" "\<forall>m\<in>set ms. length m = rows"
    and "ss \<noteq> []" "ms \<noteq> []"
    and "length D = length ss" "\<forall>r\<in>set D. length r = length ms"
    and fin: "\<forall>s\<in>set ss. \<forall>m\<in>set ms. fle (min_direct_flip_dist rnd (flatten s) (flatten m) rows) finfo_f8_max"
  shows "bundle_minimum_distance rnd (stack ss) (stack ms) (length ss) (length ms) rows junk
         = bmd_formula rnd (bundle_minimum_distance_matrix rnd (stack ss) (stack ms) (length ss) (length ms) rows D)
             (length ms)"
proof -
  let ?T = "\<lambda>s m. min_direct_flip_dist rnd (flatten s) (flatten m) rows"
  let ?pd = "pair_dist rnd (stack ss) (stack ms) rows"
  have pd: "\<And>i j. i < length ss \<Longrightarrow> j < length ms \<Longrightarrow> ?pd i j = ?T (ss ! i) (ms ! j)"
    using assms(1,2) by (simp add: pair_dist_stack)
  have D: "bundle_minimum_distance_matrix rnd (stack ss) (stack ms) (length ss) (length ms) rows D
           = map (\<lambda>s. map (?T s) ms) ss"
    using assms(1,2,5,6) by (rule bmdm_on_stack)
  have rows_eq: "map (\<lambda>i. run_min finfo_f8_max (map (?pd i) [0..<length ms])) [0..<length ss]
                 = map amin (map (\<lambda>s. map (?T s) ms) ss)"
  proof (rule nth_equalityI)
    show "length (map (\<lambda>i. run_min finfo_f8_max (map (?pd i) [0..<length ms])) [0..<length ss])
          = length (map amin (map (\<lambda>s. map (?T s) ms) ss))" by simp
  next
    fix i assume "i < length (map (\<lambda>i. run_min finfo_f8_max (map (?pd i) [0..<length ms])) [0..<length ss])"
    then have i: "i < length ss" by simp
    have "map (?pd i) [0..<length ms] = map (?T (ss ! i)) ms"
      by (rule nth_equalityI) (use i pd in auto)
    moreover have "run_min finfo_f8_max (map (?T (ss ! i)) ms) = amin (map (?T (ss ! i)) ms)"
      by (rule run_min_amin) (use assms(4) fin i in auto)
    ultimately show "map (\<lambda>i. run_min finfo_f8_max (map (?pd i) [0..<length ms])) [0..<length ss] ! i
          = map amin (map (\<lambda>s. map (?T s) ms) ss) ! i"
      using i by simp
  qed
  have cols_eq: "map (\<lambda>j. run_min finfo_f8_max (map (\<lambda>i. ?pd i j) [0..<length ss])) [0..<length ms]
                 = map (\<lambda>j. amin (map (\<lambda>row. row ! j) (map (\<lambda>s. map (?T s) ms) ss))) [0..<length ms]"
  proof (rule map_cong [OF refl])
    fix j assume "j \<in> set [0..<length ms]"
    then have j: "j < length ms" by simp
    have "map (\<lambda>i. ?pd i j) [0..<length ss] = map (\<lambda>s. ?T s (ms ! j)) ss"
      by (rule nth_equalityI) (use j pd in auto)
    moreover have "map (\<lambda>row. row ! j) (map (\<lambda>s. map (?T s) ms) ss) = map (\<lambda>s. ?T s (ms ! j)) ss"
      using j by simp
    moreover have "run_min finfo_f8_max (map (\<lambda>s. ?T s (ms ! j)) ss) = amin (map (\<lambda>s. ?T s (ms ! j)) ss)"
      by (rule run_min_amin) (use assms(3) fin j in auto)
    ultimately show "run_min finfo_f8_max (map (\<lambda>i. ?pd i j) [0..<length ss])
                     = amin (map (\<lambda>row. row ! j) (map (\<lambda>s. map (?T s) ms) ss))"
      by (simp only:)
  qed
  show ?thesis
    unfolding bmd_closed_form D bmd_formula_def rows_eq cols_eq ..
qed

lemma rnd64_overflow:
  assumes "2 ^ k \<le> \<bar>x\<bar>" "\<bar>x\<bar> < 2 ^ Suc k" "u * 2 ^ 52 = 2 ^ k"
    and "\<bar>x - of_int n * u\<bar> < u / 2 \<or> (\<bar>x - of_int n * u\<bar> = u / 2 \<and> even n)"
    and "dbl_max < of_int n * u"
  shows "rnd64 x = PInf"
proof -
  have u: "ulp64 x = u" using assms(1-3) by (rule ulp64_eval)
  have upos: "0 < u" using assms(3) by (smt (verit) zero_less_power zero_less_mult_pos2 mult_nonneg_nonpos)
  have x0: "x \<noteq> 0" using assms(1) by (smt (verit) zero_less_power)
  have "\<bar>x / u - of_int n\<bar> = \<bar>x - of_int n * u\<bar> / u"
    using upos by (simp add: field_simps abs_if)
  then have "\<bar>x / u - of_int n\<bar> < 1 / 2 \<or> (\<bar>x / u - of_int n\<bar> = 1 / 2 \<and> even n)"
    using assms(4) upos by (auto simp: field_simps)
  then have "round_half_even (x / u) = n" by (rule round_half_even_near)
  with u x0 assms(5) show ?thesis
    by (auto simp: rnd64_def Let_def)
qed

lemma rnd64_0: "rnd64 0 = Fin 0"
  by (simp add: rnd64_def)

lemma rnd64_1: "rnd64 1 = Fin 1"
  using rnd64_round [of 0 1 "1 / 2 ^ 52" "2 ^ 52"] by (simp add: dbl_max_def)

lemma rnd64_dbl_max: "rnd64 dbl_max = Fin dbl_max"
  using rnd64_round [of 1023 dbl_max "2 ^ 971" "2 ^ 53 - 1"] by (simp add: dbl_max_def)

lemma rnd64_twice_dbl_max: "rnd64 (2 * dbl_max) = PInf"
  using rnd64_overflow [of 1024 "2 * dbl_max" "2 ^ 972" "2 ^ 53 - 1"] by (simp add: dbl_max_def)

lemma dbl_max_pos: "0 < dbl_max"
  by (simp add: dbl_max_def)

lemma nan_pair: "min_direct_flip_dist rnd64 (row_ptr (stack [[(NaN, Fin 0, Fin 0)]]) 0)
     (row_ptr (stack [[(Fin 0, Fin 0, Fin 0)]]) 0) (Suc 0) = NaN"
  by (simp add: min_direct_flip_dist_def mdf_point_def mdf_coord_def flatten_def stack_def row_ptr_def upt3 upt1
        fsub_def double_of_intp_def rnd64_0 Let_def)

lemma empty_pair: "min_direct_flip_dist rnd a b 0 = (if rnd 0 = Fin 0 then NaN else fdiv rnd (Fin 0) (rnd 0))"
  by (simp add: min_direct_flip_dist_def double_of_intp_def Let_def)

lemma cost_of_two_max: "bundle_cost rnd64 (fmean rnd64 [finfo_f8_max]) (fmean rnd64 [finfo_f8_max]) = PInf"
  using dbl_max_pos
  by (simp add: bundle_cost_def fmean_def fsum_def finfo_f8_max_def double_of_intp_def rnd64_1
        rnd64_dbl_max rnd64_twice_dbl_max Let_def)

lemma cost_of_two_nan: "bundle_cost rnd (fmean rnd [NaN]) (fmean rnd [NaN]) = NaN"
  by (simp add: bundle_cost_def fmean_def fsum_def Let_def)

lemma mdf_nn_any:
  assumes "rounding_sane rnd"
  shows "nn_or_nan (min_direct_flip_dist rnd a b rows)"
proof (cases "rows = 0")
  case True
  then show ?thesis
    using assms by (simp add: empty_pair sane_zero nn_or_nan_def)
next
  case False
  let ?t = "\<lambda>i. foldl (mdf_coord rnd a b rows i) (Fin 0, Fin 0) [0..<3]"
  have z: "nn_or_nan (Fin 0)" by (simp add: nn_or_nan_def)
  have t: "nn_or_nan (fst (?t i)) \<and> nn_or_nan (snd (?t i))" for i
    using assms by (simp add: upt3 mdf_coord_def Let_def fadd_nn z fsq_nn [unfolded fsq_def])
  have d: "nn_or_nan (foldl (fadd rnd) (Fin 0) (map (\<lambda>i. fsqrt rnd (fst (?t i))) [0..<rows]))"
    using assms t by (intro fsum_nn_aux z) (auto intro: fsqrt_nn)
  have f: "nn_or_nan (foldl (fadd rnd) (Fin 0) (map (\<lambda>i. fsqrt rnd (snd (?t i))) [0..<rows]))"
    using assms t by (intro fsum_nn_aux z) (auto intro: fsqrt_nn)
  have r: "1 \<le> rows" using False by simp
  show ?thesis
    using fdiv_count_nn [OF assms r d] fdiv_count_nn [OF assms r f]
    by (simp add: min_direct_flip_dist_def mdf_point_fold Let_def)
qed

lemma run_min_range:
  assumes "\<forall>t\<in>set ts. nn_or_nan t" "\<exists>a. m = Fin a \<and> 0 \<le> a"
  shows "\<exists>a. run_min m ts = Fin a \<and> 0 \<le> a"
  using assms
proof (induction ts arbitrary: m)
  case Nil
  then show ?case by (simp add: run_min_def)
next
  case (Cons t ts)
  have "\<exists>a. upd1 t m = Fin a \<and> 0 \<le> a"
    using Cons.prems by (cases t) (auto simp: upd1_def nn_or_nan_def)
  moreover have "run_min m (t # ts) = run_min (upd1 t m) ts"
    by (simp add: run_min_def upd1_def)
  ultimately show ?case using Cons by simp
qed

lemma run_min_nonneg:
  "\<forall>t\<in>set ts. nn_or_nan t \<Longrightarrow> fle (Fin 0) (run_min finfo_f8_max ts)"
  using run_min_range [of ts finfo_f8_max] dbl_max_pos by (auto simp: finfo_f8_max_def)

lemma count_bound: "n < 2 ^ 63 \<Longrightarrow> real n \<le> 2 ^ 63"
  by (metis less_imp_le of_nat_le_iff of_nat_numeral of_nat_power)

lemma bundle_cost_nonneg:
  assumes "rounding_sane rnd" "fle (Fin 0) x" "fle (Fin 0) y"
  shows "fle (Fin 0) (bundle_cost rnd x y)"
proof -
  have s: "fle (Fin 0) (fadd rnd x y)" using assms by (rule fadd_nonneg)
  show ?thesis
  proof (cases "fadd rnd x y")
    case (Fin a)
    with s have a: "0 \<le> a" by simp
    have q: "fle (Fin 0) (rnd (a / 4))" using assms(1) a by (simp add: sane_nonneg)
    show ?thesis
    proof (cases "a = 0")
      case True
      with Fin assms(1) show ?thesis by (simp add: bundle_cost_def sane_zero)
    next
      case False
      with a q Fin assms(1) show ?thesis
        by (cases "rnd (a / 4)") (auto simp: bundle_cost_def sane_nonneg)
    qed
  next
    case PInf
    then show ?thesis by (simp add: bundle_cost_def)
  next
    case NInf
    with s show ?thesis by simp
  next
    case NaN
    with s show ?thesis by simp
  qed
qed

lemma bmd_nonneg:
  assumes "rounding_sane rnd" "1 \<le> n" "1 \<le> m" "n < 2 ^ 63" "m < 2 ^ 63"
  shows "fle (Fin 0) (bundle_minimum_distance rnd st mv n m rows junk)"
proof -
  have pd: "nn_or_nan (pair_dist rnd st mv rows i j)" for i j
    using assms(1) by (simp add: pair_dist_def mdf_nn_any)
  have r: "fle (Fin 0) (fmean rnd (map (\<lambda>i. run_min finfo_f8_max (map (pair_dist rnd st mv rows i) [0..<m])) [0..<n]))"
    using assms pd by (intro fmean_nonneg) (auto simp: count_bound intro!: run_min_nonneg)
  have c: "fle (Fin 0) (fmean rnd (map (\<lambda>j. run_min finfo_f8_max (map (\<lambda>i. pair_dist rnd st mv rows i j) [0..<n])) [0..<m]))"
    using assms pd by (intro fmean_nonneg) (auto simp: count_bound intro!: run_min_nonneg)
  show ?thesis
    unfolding bmd_closed_form using assms(1) r c by (rule bundle_cost_nonneg)
qed

lemma fmean_Nil: "rounding_sane rnd \<Longrightarrow> fmean rnd [] = NaN"
  by (simp add: fmean_def fsum_def double_of_intp_def sane_zero)

lemma bundle_cost_nan: "bundle_cost rnd NaN y = NaN" "bundle_cost rnd x NaN = NaN"
  by (cases x; simp add: bundle_cost_def)+

lemma bmd_empty:
  assumes "rounding_sane rnd"
  shows "bundle_minimum_distance rnd st mv 0 m rows junk = NaN"
    "bundle_minimum_distance rnd st mv n 0 rows junk = NaN"
  using assms by (simp_all add: bmd_closed_form fmean_Nil bundle_cost_nan)

lemma rnd64_power:
  assumes "k \<le> 1023"
  shows "rnd64 (2 ^ k) = Fin (2 ^ k)"
proof -
  have "(2::real) ^ k \<le> 2 ^ 1023" by (rule power_increasing) (use assms in auto)
  also have "\<dots> \<le> dbl_max" by (simp add: dbl_max_def)
  finally have b: "\<bar>real_of_int (2 ^ 52) * (2 ^ k / 2 ^ 52)\<bar> \<le> dbl_max" by simp
  show ?thesis
    using rnd64_round [of k "2 ^ k" "2 ^ k / 2 ^ 52" "2 ^ 52"] b by simp
qed

lemma rnd64_power_overflow:
  assumes "1024 \<le> k"
  shows "rnd64 (2 ^ k) = PInf"
proof -
  have "dbl_max < 2 ^ 1024" by (simp add: dbl_max_def)
  also have "(2::real) ^ 1024 \<le> 2 ^ k" by (rule power_increasing) (use assms in auto)
  finally have b: "dbl_max < real_of_int (2 ^ 52) * (2 ^ k / 2 ^ 52)" by simp
  show ?thesis
    using rnd64_overflow [of k "2 ^ k" "2 ^ k / 2 ^ 52" "2 ^ 52"] b by simp
qed

lemma overflow_pair:
  "min_direct_flip_dist rnd64 (flatten [(Fin big, Fin 0, Fin 0)])
     (flatten [(Fin (- big), Fin 0, Fin 0)]) 1 = PInf"
proof -
  have e: "2 * big = 2 ^ 601" by (simp add: big_def)
  have a: "rnd64 (2 * big) = Fin (2 * big)"
    unfolding e by (rule rnd64_power) simp
  have f: "4 * (big * big) = 2 ^ 1202" by (simp add: big_def)
  have b: "rnd64 (4 * (big * big)) = PInf"
    unfolding f by (rule rnd64_power_overflow) simp
  show ?thesis
    by (simp add: min_direct_flip_dist_def mdf_point_def mdf_coord_def flatten_def upt3 upt1
        fsub_def double_of_intp_def rnd64_0 rnd64_1 a b Let_def)
qed

lemma fsub_swap:
  assumes "rounding_odd rnd"
  shows "fsub rnd y x = fneg (fsub rnd x y)"
proof (cases x)
  case x: (Fin a)
  show ?thesis
  proof (cases y)
    case y: (Fin b)
    have "rnd (- (a + - b)) = fneg (rnd (a + - b))"
      using assms unfolding rounding_odd_def by blast
    moreover have "- (a + - b) = b + - a" by simp
    ultimately have "rnd (b + - a) = fneg (rnd (a + - b))" by (simp only:)
    then show ?thesis unfolding x y fsub_def by (simp only: fneg.simps fadd.simps)
  qed (simp_all add: fsub_def x)
next
  case PInf
  then show ?thesis by (cases y) (simp_all add: fsub_def)
next
  case NInf
  then show ?thesis by (cases y) (simp_all add: fsub_def)
next
  case NaN
  then show ?thesis by (cases y) (simp_all add: fsub_def)
qed

lemma fsq_fneg: "fsq rnd (fneg z) = fsq rnd z"
  by (cases z) (simp_all add: fsq_def)

lemma fsq_fsub_swap: "rounding_odd rnd \<Longrightarrow> fsq rnd (fsub rnd y x) = fsq rnd (fsub rnd x y)"
  by (simp only: fsub_swap [of rnd y x] fsq_fneg)

lemma euclid_sym: "rounding_odd rnd \<Longrightarrow> euclid rnd q p = euclid rnd p q"
  by (cases p; cases q) (simp add: fsq_fsub_swap [of rnd])

lemma map2_swap: "(\<And>x y. f y x = g x y) \<Longrightarrow> map2 f ys xs = map2 g xs ys"
proof -
  assume h: "\<And>x y. f y x = g x y"
  have "zip ys xs = map (\<lambda>(x, y). (y, x)) (zip xs ys)" by (rule zip_commute)
  then show ?thesis by (simp add: h case_prod_unfold)
qed

lemma mdf_spec_swapped:
  assumes "rounding_odd rnd" "length qs = length ps"
  shows "mdf_spec rnd qs ps =
         (let direct = fmean rnd (map2 (euclid rnd) ps qs);
              flipped = fmean rnd (rev (map2 (euclid rnd) ps (rev qs)))
          in if fle direct flipped then direct else flipped)"
proof -
  have d: "map2 (euclid rnd) qs ps = map2 (euclid rnd) ps qs"
    by (rule map2_swap) (simp add: euclid_sym assms(1))
  have "map2 (euclid rnd) qs (rev ps) = map2 (euclid rnd) (rev ps) qs"
    by (rule map2_swap) (simp add: euclid_sym assms(1))
  also have "zip (rev ps) qs = rev (zip ps (rev qs))"
    using assms(2) by (simp add: zip_rev [symmetric])
  finally have f: "map2 (euclid rnd) qs (rev ps) = rev (map2 (euclid rnd) ps (rev qs))"
    by (simp add: rev_map)
  show ?thesis by (simp add: mdf_spec_def d f)
qed

lemma fadd_exact_commute: "fadd Fin x y = fadd Fin y x"
  by (cases x; cases y) simp_all

lemma fadd_exact_assoc: "fadd Fin (fadd Fin x y) z = fadd Fin x (fadd Fin y z)"
  by (cases x; cases y; cases z) simp_all

lemma foldl_fadd_exact_shift: "foldl (fadd Fin) (fadd Fin s x) xs = fadd Fin (foldl (fadd Fin) s xs) x"
proof (induction xs arbitrary: s)
  case Nil
  then show ?case by simp
next
  case (Cons y ys)
  have "fadd Fin (fadd Fin s x) y = fadd Fin (fadd Fin s y) x"
    by (metis fadd_exact_assoc fadd_exact_commute)
  with Cons show ?case by simp
qed

lemma fsum_exact_rev: "fsum Fin (rev xs) = fsum Fin xs"
  unfolding fsum_def
proof (induction xs)
  case Nil
  then show ?case by simp
next
  case (Cons x xs)
  then show ?case by (simp add: foldl_fadd_exact_shift)
qed

lemma fmean_exact_rev: "fmean Fin (rev xs) = fmean Fin xs"
  by (simp add: fmean_def fsum_exact_rev)

lemma rounding_odd_exact: "rounding_odd Fin"
  by (simp add: rounding_odd_def)

lemma mdf_exact_commute:
  assumes "length qs = length ps"
  shows "min_direct_flip_dist Fin (flatten qs) (flatten ps) (length ps)
         = min_direct_flip_dist Fin (flatten ps) (flatten qs) (length ps)"
proof -
  have "min_direct_flip_dist Fin (flatten qs) (flatten ps) (length ps) = mdf_spec Fin qs ps"
    using mdf_on_flatten [of ps qs Fin] assms by simp
  also have "\<dots> = mdf_spec Fin ps qs"
    using mdf_spec_swapped [OF rounding_odd_exact assms]
    by (simp add: fmean_exact_rev mdf_spec_def)
  also have "\<dots> = min_direct_flip_dist Fin (flatten ps) (flatten qs) (length ps)"
    using mdf_on_flatten [of qs ps Fin] assms by simp
  finally show ?thesis .
qed

lemma rnd64_2: "rnd64 2 = Fin 2"
  using rnd64_round [of 1 2 "2 / 2 ^ 52" "2 ^ 52"] by (simp add: dbl_max_def)

lemma rnd64_3: "rnd64 3 = Fin 3"
  using rnd64_round [of 1 3 "2 / 2 ^ 52" "3 * 2 ^ 51"] by (simp add: dbl_max_def)

lemma rnd64_m1: "rnd64 (- 1) = Fin (- 1)"
  using rnd64_round [of 0 "- 1" "1 / 2 ^ 52" "- (2 ^ 52)"] by (simp add: dbl_max_def)

lemma rnd64_p53: "rnd64 9007199254740992 = Fin 9007199254740992"
  using rnd64_round [of 53 9007199254740992 2 "2 ^ 52"] by (simp add: dbl_max_def)

lemma rnd64_m53: "rnd64 (- 9007199254740992) = Fin (- 9007199254740992)"
  using rnd64_round [of 53 "- 9007199254740992" 2 "- (2 ^ 52)"] by (simp add: dbl_max_def)

lemma rnd64_p106: "rnd64 81129638414606681695789005144064 = Fin 81129638414606681695789005144064"
  using rnd64_round [of 106 81129638414606681695789005144064 "2 ^ 54" "2 ^ 52"] by (simp add: dbl_max_def)

lemma sqrt_p106: "sqrt 81129638414606681695789005144064 = 9007199254740992"
  by (rule real_sqrt_unique) simp_all

lemma rnd64_p53_2: "rnd64 9007199254740994 = Fin 9007199254740994"
  using rnd64_round [of 53 9007199254740994 2 "2 ^ 52 + 1"] by (simp add: dbl_max_def)

lemma rnd64_tie: "rnd64 9007199254740993 = Fin 9007199254740992"
  using rnd64_round [of 53 9007199254740993 2 "2 ^ 52"] by (simp add: dbl_max_def)

lemma rnd64_third: "rnd64 (9007199254740992 / 3) = Fin (6004799503160661 / 2)"
  using rnd64_round [of 51 "9007199254740992 / 3" "1 / 2" 6004799503160661] by (simp add: dbl_max_def)

lemma rnd64_third_2: "rnd64 (9007199254740994 / 3) = Fin (6004799503160663 / 2)"
  using rnd64_round [of 51 "9007199254740994 / 3" "1 / 2" 6004799503160663] by (simp add: dbl_max_def)

lemmas rnd64_values = rnd64_0 rnd64_1 rnd64_2 rnd64_3 rnd64_m1 rnd64_p53 rnd64_m53 rnd64_p106
  sqrt_p106 rnd64_p53_2 rnd64_tie rnd64_third rnd64_third_2

lemma ce_ab:
  "mdf_spec rnd64 [(Fin 1, Fin 0, Fin 0), (Fin 1, Fin 0, Fin 0), (Fin 1, Fin 0, Fin 0)]
     [(Fin 0, Fin 0, Fin 0), (Fin 0, Fin 0, Fin 0), (Fin (1 - 2 ^ 53), Fin 0, Fin 0)]
   = Fin (6004799503160661 / 2)"
  by (simp add: mdf_spec_def fmean_def fsum_def fsq_def fsub_def double_of_intp_def rnd64_values Let_def)

lemma ce_ba:
  "mdf_spec rnd64 [(Fin 0, Fin 0, Fin 0), (Fin 0, Fin 0, Fin 0), (Fin (1 - 2 ^ 53), Fin 0, Fin 0)]
     [(Fin 1, Fin 0, Fin 0), (Fin 1, Fin 0, Fin 0), (Fin 1, Fin 0, Fin 0)]
   = Fin (6004799503160663 / 2)"
  by (simp add: mdf_spec_def fmean_def fsum_def fsq_def fsub_def double_of_intp_def rnd64_values Let_def)

lemma keeps_refl: "keeps n s s"
  by (simp add: keeps_def)

lemma keeps_trans: "keeps n s s' \<Longrightarrow> keeps n s' s'' \<Longrightarrow> keeps n s s''"
  by (auto simp: keeps_def)

lemma keeps_alloc: "n \<le> next_addr s \<Longrightarrow> keeps n s (snd (alloc obj s))"
  by (simp add: keeps_def alloc_def)

lemma keeps_obj_setitem: "n \<le> t \<Longrightarrow> keeps n s (obj_setitem t i r s)"
  by (auto simp: keeps_def obj_setitem_def split: option.splits pyobject.splits)

lemma keeps_dm_setitem: "n \<le> d \<Longrightarrow> keeps n s (dm_setitem d i j v s)"
  by (auto simp: keeps_def dm_setitem_def split: option.splits pyobject.splits)

lemma keeps_ascontiguousarray: "n \<le> next_addr s \<Longrightarrow> keeps n s (snd (ascontiguousarray p s))"
  by (auto simp: ascontiguousarray_def keeps_def alloc_def split: option.splits pyobject.splits)

lemma keeps_next: "keeps n s s' \<Longrightarrow> n \<le> next_addr s \<Longrightarrow> n \<le> next_addr s'"
  by (simp add: keeps_def)

lemma keeps_fill_tracks:
  "n \<le> t \<Longrightarrow> n \<le> next_addr s \<Longrightarrow> keeps n s (snd (fill_tracks t seq is s))"
proof (induction "is" arbitrary: s)
  case Nil
  then show ?case by (simp add: keeps_refl)
next
  case (Cons i "is")
  obtain r s' where a: "ascontiguousarray (seq ! i) s = (r, s')" by (cases "ascontiguousarray (seq ! i) s")
  have k: "keeps n s s'" using keeps_ascontiguousarray [OF Cons.prems(2), of "seq ! i"] a by simp
  show ?case
  proof (cases r)
    case (Inl e)
    with a k show ?thesis by simp
  next
    case (Inr q)
    have k2: "keeps n s (obj_setitem t i q s')"
      using k keeps_obj_setitem [OF Cons.prems(1)] by (rule keeps_trans)
    have "keeps n (obj_setitem t i q s') (snd (fill_tracks t seq is (obj_setitem t i q s')))"
      using Cons.prems(1) keeps_next [OF k2 Cons.prems(2)] by (rule Cons.IH)
    with k2 have "keeps n s (snd (fill_tracks t seq is (obj_setitem t i q s')))" by (rule keeps_trans)
    with a Inr show ?thesis by simp
  qed
qed

lemma keeps_dm_row:
  "n \<le> dm \<Longrightarrow> keeps n s (snd (dm_row rnd tB dm t_len i t1 js s))"
proof (induction js arbitrary: s)
  case Nil
  then show ?case by (simp add: keeps_refl)
next
  case (Cons j js)
  show ?case
  proof (cases "track_points s tB j")
    case (Inl e)
    then show ?thesis by (simp add: keeps_refl)
  next
    case (Inr t2)
    let ?s1 = "s\<lparr>mdf_calls := Suc (mdf_calls s)\<rparr>"
    let ?s2 = "dm_setitem dm i j (min_direct_flip_dist rnd (flatten t1) (flatten t2) t_len) ?s1"
    have "keeps n s ?s1" by (simp add: keeps_def)
    moreover have "keeps n ?s1 ?s2" using Cons.prems by (rule keeps_dm_setitem)
    ultimately have "keeps n s ?s2" by (rule keeps_trans)
    moreover have "keeps n ?s2 (snd (dm_row rnd tB dm t_len i t1 js ?s2))"
      using Cons.prems by (rule Cons.IH)
    ultimately show ?thesis using Inr by (simp add: keeps_trans)
  qed
qed

lemma keeps_dm_rows:
  "n \<le> dm \<Longrightarrow> keeps n s (snd (dm_rows rnd tA tB dm t_len is js s))"
proof (induction "is" arbitrary: s)
  case Nil
  then show ?case by (simp add: keeps_refl)
next
  case (Cons i "is")
  show ?case
  proof (cases "track_points s tA i")
    case (Inl e)
    then show ?thesis by (simp add: keeps_refl)
  next
    case (Inr t1)
    obtain r s' where d: "dm_row rnd tB dm t_len i t1 js s = (r, s')"
      by (cases "dm_row rnd tB dm t_len i t1 js s")
    have k: "keeps n s s'" using keeps_dm_row [OF Cons.prems, of s rnd tB t_len i t1 js] d by simp
    show ?thesis
    proof (cases r)
      case None
      have "keeps n s' (snd (dm_rows rnd tA tB dm t_len is js s'))" using Cons.prems by (rule Cons.IH)
      with k have "keeps n s (snd (dm_rows rnd tA tB dm t_len is js s'))" by (rule keeps_trans)
      with Inr d None show ?thesis by simp
    next
      case (Some e)
      with Inr d k show ?thesis by simp
    qed
  qed
qed

lemma keeps_distance_matrix_mdf:
  "keeps (next_addr s) s (snd (distance_matrix_mdf rnd a b s))"
proof -
  let ?n = "next_addr s"
  obtain tA s1 where a1: "alloc (np_zeros_object (length a)) s = (tA, s1)" by (cases "alloc (np_zeros_object (length a)) s")
  obtain tB s2 where a2: "alloc (np_zeros_object (length b)) s1 = (tB, s2)" by (cases "alloc (np_zeros_object (length b)) s1")
  obtain dm s3 where a3: "alloc (np_zeros_double (length a) (length b)) s2 = (dm, s3)"
    by (cases "alloc (np_zeros_double (length a) (length b)) s2")
  have tA: "tA = ?n" and n1: "next_addr s1 = Suc ?n" using a1 by (auto simp: alloc_def)
  have tB: "tB = Suc ?n" and n2: "next_addr s2 = Suc (Suc ?n)" using a2 n1 by (auto simp: alloc_def)
  have dm: "dm = Suc (Suc ?n)" and n3: "next_addr s3 = Suc (Suc (Suc ?n))" using a3 n2 by (auto simp: alloc_def)
  have k1: "keeps ?n s s1" using keeps_alloc [of ?n s "np_zeros_object (length a)"] a1 by simp
  have k2: "keeps ?n s1 s2" using keeps_alloc [of ?n s1 "np_zeros_object (length b)"] a2 n1 by simp
  have k3: "keeps ?n s2 s3" using keeps_alloc [of ?n s2 "np_zeros_double (length a) (length b)"] a3 n2 by simp
  have k: "keeps ?n s s3" using k1 k2 k3 by (blast intro: keeps_trans)
  obtain r4 s4 where f4: "fill_tracks tA a [0..<length a] s3 = (r4, s4)" by (cases "fill_tracks tA a [0..<length a] s3")
  have k4: "keeps ?n s3 s4" using keeps_fill_tracks [of ?n tA s3 a "[0..<length a]"] f4 tA n3 by simp
  obtain r5 s5 where f5: "fill_tracks tB b [0..<length b] s4 = (r5, s5)" by (cases "fill_tracks tB b [0..<length b] s4")
  have n4: "?n \<le> next_addr s4" using keeps_next [OF k4] n3 by simp
  have k5: "keeps ?n s4 s5" using keeps_fill_tracks [of ?n tB s4 b "[0..<length b]"] f5 tB n4 by simp
  have k6: "keeps ?n s5 (snd (dm_rows rnd tA tB dm tl [0..<length a] [0..<length b] s5))" for tl
    using keeps_dm_rows [of ?n dm s5 rnd tA tB tl "[0..<length a]" "[0..<length b]"] dm by simp
  have k35: "keeps ?n s s4" "keeps ?n s s5" using k k4 k5 by (blast intro: keeps_trans)+
  have "keeps ?n s (snd (dm_rows rnd tA tB dm tl [0..<length a] [0..<length b] s5))" for tl
    using k35(2) k6 by (rule keeps_trans)
  then have k7: "keeps ?n s s6"
    if "dm_rows rnd tA tB dm tl [0..<length a] [0..<length b] s5 = (r, s6)" for tl r s6
    using that by (metis snd_conv)
  show ?thesis
    using a1 a2 a3 f4 f5 k k35 k7
    by (auto simp: distance_matrix_mdf_def Let_def split: sum.splits option.splits prod.splits)
qed

lemma mdf_shape_mismatch:
  assumes "a \<noteq> []" "b \<noteq> []"
    and "heap s (a ! 0) = Some (Streamline ca pa)" "heap s (b ! 0) = Some (Streamline cb pb)"
    and "a ! 0 < next_addr s" "b ! 0 < next_addr s"
    and "length pa \<noteq> length pb"
  shows "distance_matrix_mdf rnd a b s =
         (Inl ValueError,
          s\<lparr>heap := (heap s)(next_addr s \<mapsto> np_zeros_object (length a),
                               Suc (next_addr s) \<mapsto> np_zeros_object (length b),
                               Suc (Suc (next_addr s)) \<mapsto> np_zeros_double (length a) (length b)),
            next_addr := Suc (Suc (Suc (next_addr s)))\<rparr>)"
  using assms
  by (simp add: distance_matrix_mdf_def alloc_def shape0_of_def Let_def)

lemma bmd_run_inputs:
  "stat (bmd_run rnd st mv n m rows junk) = st \<and> mov (bmd_run rnd st mv n m rows junk) = mv"
proof -
  let ?s0 = "bmd_init n m (bmd_start st mv junk n m)"
  have s0: "stat ?s0 = st" "mov ?s0 = mv" "min_j ?s0 = replicate n finfo_f8_max"
    "min_i ?s0 = replicate m finfo_f8_max"
    by (simp_all add: bmd_init_start)
  have "m \<le> length (min_i ?s0)" "n \<le> length (min_j ?s0)" by (simp_all add: s0)
  from bmd_fold_aux [OF this, of rnd rows]
  have "stat (bmd_fold rnd n m rows ?s0) = st" "mov (bmd_fold rnd n m rows ?s0) = mv"
    by (simp_all add: bmd_fold_def s0)
  then show ?thesis
    by (simp add: bmd_run_def bmd_final_def bmd_sums_def Let_def sum_loop_i sum_loop_j)
qed

lemma ascontiguousarray_streamline:
  assumes "heap s p = Some (Streamline c ps)" "p < next_addr s"
  shows "\<exists>q s'. ascontiguousarray p s = (Inr q, s') \<and> q < next_addr s' \<and> (q = p \<or> q = next_addr s) \<and>
           heap s' q = Some (Streamline (c \<or> q \<noteq> p) ps) \<and>
           (\<forall>r<next_addr s. heap s' r = heap s r) \<and> next_addr s \<le> next_addr s'"
  using assms by (auto simp: ascontiguousarray_def alloc_def)

lemma fill_tracks_ok:
  assumes "heap s t = Some (ObjectArray xs)" "t < next_addr s"
    and "\<forall>i\<in>set is. i < length xs \<and> seq ! i < next_addr s \<and> seq ! i \<noteq> t \<and>
           (\<exists>c. heap s (seq ! i) = Some (Streamline c (pss ! i)))"
  shows "\<exists>xs' s'. fill_tracks t seq is s = (None, s') \<and>
           heap s' t = Some (ObjectArray xs') \<and> length xs' = length xs \<and>
           (\<forall>i\<in>set is. \<exists>q c. xs' ! i = Some q \<and> (q = seq ! i \<or> next_addr s \<le> q) \<and>
               q < next_addr s' \<and> heap s' q = Some (Streamline c (pss ! i))) \<and>
           (\<forall>i. i \<notin> set is \<longrightarrow> xs' ! i = xs ! i) \<and>
           (\<forall>r<next_addr s. r \<noteq> t \<longrightarrow> heap s' r = heap s r) \<and>
           next_addr s \<le> next_addr s' \<and> mdf_calls s' = mdf_calls s"
  using assms
proof (induction "is" arbitrary: s xs)
  case Nil
  then show ?case by simp
next
  case (Cons i "is")
  from Cons.prems(3) obtain c where
    i: "i < length xs" "seq ! i < next_addr s" "seq ! i \<noteq> t" "heap s (seq ! i) = Some (Streamline c (pss ! i))"
    by auto
  from ascontiguousarray_streamline [OF i(4) i(2)] obtain q s1 where
    a: "ascontiguousarray (seq ! i) s = (Inr q, s1)" "q < next_addr s1" "q = seq ! i \<or> q = next_addr s"
      "heap s1 q = Some (Streamline (c \<or> q \<noteq> seq ! i) (pss ! i))"
      "\<forall>r<next_addr s. heap s1 r = heap s r" "next_addr s \<le> next_addr s1"
    by blast
  have mc1: "mdf_calls s1 = mdf_calls s"
    using a(1) i(4) by (auto simp: ascontiguousarray_def alloc_def split: if_splits)
  have qt: "q \<noteq> t" using a(3) i(3) Cons.prems(2) by auto
  let ?s2 = "obj_setitem t i q s1"
  have t1: "heap s1 t = Some (ObjectArray xs)" using a(5) Cons.prems(1,2) by simp
  have h2: "heap ?s2 = (heap s1)(t \<mapsto> ObjectArray (xs[i := Some q]))" "next_addr ?s2 = next_addr s1"
    "mdf_calls ?s2 = mdf_calls s1"
    using t1 by (simp_all add: obj_setitem_def)
  have p1: "heap ?s2 t = Some (ObjectArray (xs[i := Some q]))" by (simp add: h2)
  have p2: "t < next_addr ?s2" using Cons.prems(2) a(6) by (simp add: h2)
  have p3: "\<forall>k\<in>set is. k < length (xs[i := Some q]) \<and> seq ! k < next_addr ?s2 \<and> seq ! k \<noteq> t \<and>
           (\<exists>c. heap ?s2 (seq ! k) = Some (Streamline c (pss ! k)))"
    using Cons.prems(3) a(5,6) by (auto simp: h2)
  from Cons.IH [OF p1 p2 p3] obtain xs' s' where
    r: "fill_tracks t seq is ?s2 = (None, s')" "heap s' t = Some (ObjectArray xs')"
      "length xs' = length (xs[i := Some q])"
      "\<forall>k\<in>set is. \<exists>q c. xs' ! k = Some q \<and> (q = seq ! k \<or> next_addr ?s2 \<le> q) \<and>
               q < next_addr s' \<and> heap s' q = Some (Streamline c (pss ! k))"
      "\<forall>k. k \<notin> set is \<longrightarrow> xs' ! k = (xs[i := Some q]) ! k"
      "\<forall>r<next_addr ?s2. r \<noteq> t \<longrightarrow> heap s' r = heap ?s2 r"
      "next_addr ?s2 \<le> next_addr s'" "mdf_calls s' = mdf_calls ?s2"
    by blast
  have run: "fill_tracks t seq (i # is) s = (None, s')" using a(1) r(1) by simp
  have hq: "heap s' q = Some (Streamline (c \<or> q \<noteq> seq ! i) (pss ! i))"
    using r(6) a(2,4) qt by (simp add: h2)
  have r4: "\<forall>k\<in>set is. \<exists>q c. xs' ! k = Some q \<and> (q = seq ! k \<or> next_addr s \<le> q) \<and>
               q < next_addr s' \<and> heap s' q = Some (Streamline c (pss ! k))"
  proof
    fix k assume "k \<in> set is"
    with r(4) obtain q c where "xs' ! k = Some q" "q = seq ! k \<or> next_addr ?s2 \<le> q"
      "q < next_addr s'" "heap s' q = Some (Streamline c (pss ! k))" by blast
    moreover have "next_addr s \<le> next_addr ?s2" using a(6) by (simp add: h2)
    ultimately show "\<exists>q c. xs' ! k = Some q \<and> (q = seq ! k \<or> next_addr s \<le> q) \<and>
               q < next_addr s' \<and> heap s' q = Some (Streamline c (pss ! k))"
      by (metis le_trans)
  qed
  have head: "\<exists>q c. xs' ! i = Some q \<and> (q = seq ! i \<or> next_addr s \<le> q) \<and> q < next_addr s' \<and>
      heap s' q = Some (Streamline c (pss ! i))"
  proof (cases "i \<in> set is")
    case True
    with r4 show ?thesis by blast
  next
    case False
    with r(5) i(1) have "xs' ! i = Some q" by simp
    with hq a(2,3) r(7) show ?thesis by (auto simp: h2)
  qed
  have frame: "\<forall>r<next_addr s. r \<noteq> t \<longrightarrow> heap s' r = heap s r"
    using r(6) a(5,6) by (auto simp: h2)
  show ?case
    using run r(2,3,5,7,8) r4 head frame a(6) mc1
    by (intro exI [of _ xs'] exI [of _ s']) (auto simp: h2)
qed

lemma track_points_ok:
  "tracks_ok s dm t pss \<Longrightarrow> i < length pss \<Longrightarrow> track_points s t i = Inr (pss ! i)"
  unfolding tracks_ok_def track_points_def by (auto split: option.splits pyobject.splits)

lemma tracks_ok_cong:
  assumes "tracks_ok s dm t pss" "\<And>p. p \<noteq> dm \<Longrightarrow> heap s' p = heap s p"
  shows "tracks_ok s' dm t pss"
proof -
  from assms(1) obtain xs where x: "t \<noteq> dm" "heap s t = Some (ObjectArray xs)" "length xs = length pss"
    "\<forall>i<length pss. \<exists>q c. xs ! i = Some q \<and> q \<noteq> dm \<and> heap s q = Some (Streamline c (pss ! i))"
    unfolding tracks_ok_def by blast
  have "\<forall>i<length pss. \<exists>q c. xs ! i = Some q \<and> q \<noteq> dm \<and> heap s' q = Some (Streamline c (pss ! i))"
    using x(4) assms(2) by metis
  with x(1,2,3) assms(2) [of t] show ?thesis
    unfolding tracks_ok_def by (intro conjI exI [of _ xs]) simp_all
qed

lemma tracks_ok_step:
  assumes "tracks_ok s dm t pss" "heap s dm = Some (DoubleMatrix m d)"
  shows "tracks_ok (dm_setitem dm i j v (s\<lparr>mdf_calls := c\<rparr>)) dm t pss"
  using assms(1) by (rule tracks_ok_cong) (use assms(2) in \<open>simp add: dm_setitem_def\<close>)

lemma dm_row_ok:
  assumes "tracks_ok s dm tB ms" "heap s dm = Some (DoubleMatrix m d)" "\<forall>j\<in>set js. j < length ms"
  shows "dm_row rnd tB dm t_len i t1 js s =
         (None, s\<lparr>heap := (heap s)(dm \<mapsto> DoubleMatrix m
                      (foldl (\<lambda>d j. d[i * m + j := min_direct_flip_dist rnd (flatten t1) (flatten (ms ! j)) t_len]) d js)),
                   mdf_calls := mdf_calls s + length js\<rparr>)"
  using assms
proof (induction js arbitrary: s d)
  case Nil
  then show ?case by (simp add: map_upd_triv)
next
  case (Cons j js)
  let ?v = "min_direct_flip_dist rnd (flatten t1) (flatten (ms ! j)) t_len"
  let ?s1 = "dm_setitem dm i j ?v (s\<lparr>mdf_calls := Suc (mdf_calls s)\<rparr>)"
  have tp: "track_points s tB j = Inr (ms ! j)"
    using Cons.prems(1,3) by (simp add: track_points_ok)
  have s1: "?s1 = s\<lparr>heap := (heap s)(dm \<mapsto> DoubleMatrix m (d[i * m + j := ?v])), mdf_calls := Suc (mdf_calls s)\<rparr>"
    using Cons.prems(2) by (simp add: dm_setitem_def)
  have ok: "tracks_ok ?s1 dm tB ms" using Cons.prems(1,2) by (rule tracks_ok_step)
  have h: "heap ?s1 dm = Some (DoubleMatrix m (d[i * m + j := ?v]))" by (simp add: s1)
  have "dm_row rnd tB dm t_len i t1 (j # js) s = dm_row rnd tB dm t_len i t1 js ?s1"
    using tp by simp
  also have "\<dots> = (None, ?s1\<lparr>heap := (heap ?s1)(dm \<mapsto> DoubleMatrix m
                      (foldl (\<lambda>d j. d[i * m + j := min_direct_flip_dist rnd (flatten t1) (flatten (ms ! j)) t_len])
                         (d[i * m + j := ?v]) js)),
                   mdf_calls := mdf_calls ?s1 + length js\<rparr>)"
    using Cons.prems(3) by (intro Cons.IH [OF ok h]) simp
  also have "\<dots> = (None, s\<lparr>heap := (heap s)(dm \<mapsto> DoubleMatrix m
                      (foldl (\<lambda>d j. d[i * m + j := min_direct_flip_dist rnd (flatten t1) (flatten (ms ! j)) t_len]) d (j # js))),
                   mdf_calls := mdf_calls s + length (j # js)\<rparr>)"
    by (simp add: s1)
  finally show ?case .
qed

lemma dm_rows_ok:
  assumes "tracks_ok s dm tA ss" "tracks_ok s dm tB ms" "heap s dm = Some (DoubleMatrix m d)"
    and "\<forall>i\<in>set is. i < length ss" "\<forall>j\<in>set js. j < length ms"
  shows "dm_rows rnd tA tB dm t_len is js s =
         (None, s\<lparr>heap := (heap s)(dm \<mapsto> DoubleMatrix m
                      (foldl (\<lambda>d i. foldl (\<lambda>d j. d[i * m + j :=
                                 min_direct_flip_dist rnd (flatten (ss ! i)) (flatten (ms ! j)) t_len]) d js) d is)),
                   mdf_calls := mdf_calls s + length is * length js\<rparr>)"
  using assms
proof (induction "is" arbitrary: s d)
  case Nil
  then show ?case by (simp add: map_upd_triv)
next
  case (Cons i "is")
  let ?row = "foldl (\<lambda>d j. d[i * m + j := min_direct_flip_dist rnd (flatten (ss ! i)) (flatten (ms ! j)) t_len]) d js"
  let ?s1 = "s\<lparr>heap := (heap s)(dm \<mapsto> DoubleMatrix m ?row), mdf_calls := mdf_calls s + length js\<rparr>"
  have tp: "track_points s tA i = Inr (ss ! i)"
    using Cons.prems(1,4) by (simp add: track_points_ok)
  have row: "dm_row rnd tB dm t_len i (ss ! i) js s = (None, ?s1)"
    using Cons.prems(2,3,5) by (rule dm_row_ok)
  have okA: "tracks_ok ?s1 dm tA ss" using Cons.prems(1) by (rule tracks_ok_cong) simp
  have okB: "tracks_ok ?s1 dm tB ms" using Cons.prems(2) by (rule tracks_ok_cong) simp
  have h: "heap ?s1 dm = Some (DoubleMatrix m ?row)" by simp
  have "dm_rows rnd tA tB dm t_len (i # is) js s = dm_rows rnd tA tB dm t_len is js ?s1"
    using tp row by simp
  also have "\<dots> = (None, ?s1\<lparr>heap := (heap ?s1)(dm \<mapsto> DoubleMatrix m
                      (foldl (\<lambda>d i. foldl (\<lambda>d j. d[i * m + j :=
                                 min_direct_flip_dist rnd (flatten (ss ! i)) (flatten (ms ! j)) t_len]) d js) ?row is)),
                   mdf_calls := mdf_calls ?s1 + length is * length js\<rparr>)"
    using Cons.prems(4,5) by (intro Cons.IH [OF okA okB h]) simp_all
  also have "\<dots> = (None, s\<lparr>heap := (heap s)(dm \<mapsto> DoubleMatrix m
                      (foldl (\<lambda>d i. foldl (\<lambda>d j. d[i * m + j :=
                                 min_direct_flip_dist rnd (flatten (ss ! i)) (flatten (ms ! j)) t_len]) d js) d (i # is))),
                   mdf_calls := mdf_calls s + length (i # is) * length js\<rparr>)"
    by (simp add: algebra_simps)
  finally show ?case .
qed

lemma flat_row:
  assumes "k \<le> m" "i * m + m \<le> length d"
  shows "foldl (\<lambda>d j. d[i * m + j := f j]) d [0..<k] = take (i * m) d @ map f [0..<k] @ drop (i * m + k) d"
  using assms(1)
proof (induction k)
  case 0
  then show ?case by simp
next
  case (Suc k)
  have len: "i * m + k < length d" using Suc.prems assms(2) by simp
  have "(take (i * m) d @ map f [0..<k] @ drop (i * m + k) d)[i * m + k := f k]
        = take (i * m) d @ map f [0..<k] @ (drop (i * m + k) d)[0 := f k]"
    using len by (simp add: list_update_append)
  also have "(drop (i * m + k) d)[0 := f k] = f k # drop (Suc (i * m + k)) d"
    using len by (metis Cons_nth_drop_Suc list_update_code(2))
  finally show ?case using Suc by simp
qed

lemma flat_rows:
  assumes "k * m \<le> length d"
  shows "foldl (\<lambda>d i. foldl (\<lambda>d j. d[i * m + j := f i j]) d [0..<m]) d [0..<k]
         = concat (map (\<lambda>i. map (f i) [0..<m]) [0..<k]) @ drop (k * m) d"
  using assms
proof (induction k)
  case 0
  then show ?case by simp
next
  case (Suc k)
  let ?done = "concat (map (\<lambda>i. map (f i) [0..<m]) [0..<k])"
  have ld: "length ?done = k * m"
    by (induction k) simp_all
  have km: "k * m + m \<le> length (?done @ drop (k * m) d)" using Suc.prems ld by simp
  have "foldl (\<lambda>d j. d[k * m + j := f k j]) (?done @ drop (k * m) d) [0..<m]
        = take (k * m) (?done @ drop (k * m) d) @ map (f k) [0..<m] @ drop (k * m + m) (?done @ drop (k * m) d)"
    using flat_row [OF le_refl km, of "f k"] .
  also have "\<dots> = ?done @ map (f k) [0..<m] @ drop (k * m + m) d"
    using ld by (simp add: add.commute)
  finally show ?case using Suc by (simp add: add.commute)
qed

lemma pairs_by_index:
  "map (\<lambda>i. map (\<lambda>j. f (xs ! i) (ys ! j)) [0..<length ys]) [0..<length xs] = map (\<lambda>x. map (f x) ys) xs"
  by (rule nth_equalityI, simp, rule nth_equalityI) simp_all

lemma distance_matrix_mdf_ok:
  assumes "holds s a ss" "holds s b ms" "a \<noteq> []" "b \<noteq> []"
    and "\<forall>p\<in>set ss. length p = rows" "\<forall>p\<in>set ms. length p = rows"
  shows "\<exists>s'. distance_matrix_mdf rnd a b s = (Inr (next_addr s + 2), s') \<and>
           heap s' (next_addr s + 2)
             = Some (DoubleMatrix (length ms)
                      (concat (map (\<lambda>p. map (\<lambda>q. min_direct_flip_dist rnd (flatten p) (flatten q) rows) ms) ss))) \<and>
           mdf_calls s' = mdf_calls s + length ss * length ms"
proof -
  let ?n = "next_addr s"
  let ?tA = "?n" and ?tB = "Suc ?n" and ?dm = "Suc (Suc ?n)"
  define s1 where "s1 = snd (alloc (np_zeros_object (length a)) s)"
  define s2 where "s2 = snd (alloc (np_zeros_object (length b)) s1)"
  define s3 where "s3 = snd (alloc (np_zeros_double (length a) (length b)) s2)"
  have al1: "alloc (np_zeros_object (length a)) s = (?tA, s1)"
    by (simp add: s1_def alloc_def)
  have al2: "alloc (np_zeros_object (length b)) s1 = (?tB, s2)"
    by (simp add: s2_def s1_def alloc_def)
  have al3: "alloc (np_zeros_double (length a) (length b)) s2 = (?dm, s3)"
    by (simp add: s3_def s2_def s1_def alloc_def)
  have s3: "next_addr s3 = Suc (Suc (Suc ?n))" "mdf_calls s3 = mdf_calls s"
    "heap s3 ?tA = Some (np_zeros_object (length a))" "heap s3 ?tB = Some (np_zeros_object (length b))"
    "heap s3 ?dm = Some (np_zeros_double (length a) (length b))"
    by (simp_all add: s3_def s2_def s1_def alloc_def)
  have la: "length a = length ss" and a: "\<And>i. i < length a \<Longrightarrow> a ! i < ?n \<and> (\<exists>c. heap s (a ! i) = Some (Streamline c (ss ! i)))"
    using assms(1) by (auto simp: holds_def)
  have lb: "length b = length ms" and b: "\<And>i. i < length b \<Longrightarrow> b ! i < ?n \<and> (\<exists>c. heap s (b ! i) = Some (Streamline c (ms ! i)))"
    using assms(2) by (auto simp: holds_def)
  have a0: "0 < length a" and b0: "0 < length b" using assms(3,4) by simp_all
  have old: "\<And>p. p < ?n \<Longrightarrow> heap s3 p = heap s p" by (simp add: s3_def s2_def s1_def alloc_def)
  have sa: "shape0_of s3 a 0 = Inr rows"
    using a [OF a0] a0 assms(5) la old [of "a ! 0"] by (auto simp: shape0_of_def nth_mem)
  have sb: "shape0_of s3 b 0 = Inr rows"
    using b [OF b0] b0 assms(6) lb old [of "b ! 0"] by (auto simp: shape0_of_def nth_mem)
  \<comment> \<open>the first loop\<close>
  have "\<exists>xs' s'. fill_tracks ?tA a [0..<length a] s3 = (None, s') \<and>
           heap s' ?tA = Some (ObjectArray xs') \<and> length xs' = length (replicate (length a) (None :: addr option)) \<and>
           (\<forall>i\<in>set [0..<length a]. \<exists>q c. xs' ! i = Some q \<and> (q = a ! i \<or> next_addr s3 \<le> q) \<and>
               q < next_addr s' \<and> heap s' q = Some (Streamline c (ss ! i))) \<and>
           (\<forall>i. i \<notin> set [0..<length a] \<longrightarrow> xs' ! i = replicate (length a) None ! i) \<and>
           (\<forall>r<next_addr s3. r \<noteq> ?tA \<longrightarrow> heap s' r = heap s3 r) \<and>
           next_addr s3 \<le> next_addr s' \<and> mdf_calls s' = mdf_calls s3"
  proof (rule fill_tracks_ok)
    show "heap s3 ?tA = Some (ObjectArray (replicate (length a) None))"
      by (simp add: s3 np_zeros_object_def)
    show "?tA < next_addr s3" by (simp add: s3)
    show "\<forall>i\<in>set [0..<length a]. i < length (replicate (length a) (None :: addr option)) \<and> a ! i < next_addr s3 \<and> a ! i \<noteq> ?tA \<and>
           (\<exists>c. heap s3 (a ! i) = Some (Streamline c (ss ! i)))"
    proof
      fix i assume "i \<in> set [0..<length a]"
      then have i: "i < length a" by simp
      from a [OF i] obtain c where c: "a ! i < ?n" "heap s (a ! i) = Some (Streamline c (ss ! i))" by blast
      have "heap s3 (a ! i) = heap s (a ! i)" using c(1) by (rule old)
      with c i show "i < length (replicate (length a) (None :: addr option)) \<and> a ! i < next_addr s3 \<and> a ! i \<noteq> ?tA \<and>
           (\<exists>c. heap s3 (a ! i) = Some (Streamline c (ss ! i)))"
        by (simp add: s3)
    qed
  qed
  then obtain xsA s4 where A0:
    "fill_tracks ?tA a [0..<length a] s3 = (None, s4)" "heap s4 ?tA = Some (ObjectArray xsA)"
    "length xsA = length (replicate (length a) (None :: addr option))"
    "\<forall>i\<in>set [0..<length a]. \<exists>q c. xsA ! i = Some q \<and> (q = a ! i \<or> next_addr s3 \<le> q) \<and>
               q < next_addr s4 \<and> heap s4 q = Some (Streamline c (ss ! i))"
    "\<forall>r<next_addr s3. r \<noteq> ?tA \<longrightarrow> heap s4 r = heap s3 r"
    "next_addr s3 \<le> next_addr s4" "mdf_calls s4 = mdf_calls s3"
    by blast
  note A = A0(1,2)
  have A3: "length xsA = length a" using A0(3) by simp
  have A4: "\<exists>q c. xsA ! i = Some q \<and> (q < ?n \<or> Suc (Suc (Suc ?n)) \<le> q) \<and>
               q < next_addr s4 \<and> heap s4 q = Some (Streamline c (ss ! i))" if "i < length a" for i
  proof -
    have im: "i \<in> set [0..<length a]" using that by simp
    from bspec [OF A0(4) im] obtain q c where q: "xsA ! i = Some q" "q = a ! i \<or> next_addr s3 \<le> q"
      "q < next_addr s4" "heap s4 q = Some (Streamline c (ss ! i))" by blast
    have "q < ?n \<or> Suc (Suc (Suc ?n)) \<le> q" using q(2) a [OF that] by (auto simp: s3)
    with q show ?thesis by blast
  qed
  have A5: "heap s4 r = heap s3 r" if "r < Suc (Suc (Suc ?n))" "r \<noteq> ?tA" for r
    using A0(5) that by (simp add: s3)
  have A6: "Suc (Suc (Suc ?n)) \<le> next_addr s4" using A0(6) by (simp add: s3)
  have A7: "mdf_calls s4 = mdf_calls s" using A0(7) by (simp add: s3)
  \<comment> \<open>the second loop\<close>
  have "\<exists>xs' s'. fill_tracks ?tB b [0..<length b] s4 = (None, s') \<and>
           heap s' ?tB = Some (ObjectArray xs') \<and> length xs' = length (replicate (length b) (None :: addr option)) \<and>
           (\<forall>i\<in>set [0..<length b]. \<exists>q c. xs' ! i = Some q \<and> (q = b ! i \<or> next_addr s4 \<le> q) \<and>
               q < next_addr s' \<and> heap s' q = Some (Streamline c (ms ! i))) \<and>
           (\<forall>i. i \<notin> set [0..<length b] \<longrightarrow> xs' ! i = replicate (length b) None ! i) \<and>
           (\<forall>r<next_addr s4. r \<noteq> ?tB \<longrightarrow> heap s' r = heap s4 r) \<and>
           next_addr s4 \<le> next_addr s' \<and> mdf_calls s' = mdf_calls s4"
  proof (rule fill_tracks_ok)
    show "heap s4 ?tB = Some (ObjectArray (replicate (length b) None))"
      using A5 [of ?tB] by (simp add: s3 np_zeros_object_def)
    show "?tB < next_addr s4" using A6 by simp
    show "\<forall>i\<in>set [0..<length b]. i < length (replicate (length b) (None :: addr option)) \<and> b ! i < next_addr s4 \<and> b ! i \<noteq> ?tB \<and>
           (\<exists>c. heap s4 (b ! i) = Some (Streamline c (ms ! i)))"
    proof
      fix i assume "i \<in> set [0..<length b]"
      then have i: "i < length b" by simp
      from b [OF i] obtain c where c: "b ! i < ?n" "heap s (b ! i) = Some (Streamline c (ms ! i))" by blast
      have "heap s4 (b ! i) = heap s (b ! i)" using c(1) A5 [of "b ! i"] old [of "b ! i"] by simp
      with c i A6 show "i < length (replicate (length b) (None :: addr option)) \<and> b ! i < next_addr s4 \<and> b ! i \<noteq> ?tB \<and>
           (\<exists>c. heap s4 (b ! i) = Some (Streamline c (ms ! i)))"
        by simp
    qed
  qed
  then obtain xsB s5 where B0:
    "fill_tracks ?tB b [0..<length b] s4 = (None, s5)" "heap s5 ?tB = Some (ObjectArray xsB)"
    "length xsB = length (replicate (length b) (None :: addr option))"
    "\<forall>i\<in>set [0..<length b]. \<exists>q c. xsB ! i = Some q \<and> (q = b ! i \<or> next_addr s4 \<le> q) \<and>
               q < next_addr s5 \<and> heap s5 q = Some (Streamline c (ms ! i))"
    "\<forall>r<next_addr s4. r \<noteq> ?tB \<longrightarrow> heap s5 r = heap s4 r"
    "next_addr s4 \<le> next_addr s5" "mdf_calls s5 = mdf_calls s4"
    by blast
  note B = B0(1,2)
  have B3: "length xsB = length b" using B0(3) by simp
  have B4: "\<exists>q c. xsB ! i = Some q \<and> (q < ?n \<or> Suc (Suc (Suc ?n)) \<le> q) \<and>
               heap s5 q = Some (Streamline c (ms ! i))" if "i < length b" for i
  proof -
    have im: "i \<in> set [0..<length b]" using that by simp
    from bspec [OF B0(4) im] obtain q c where q: "xsB ! i = Some q" "q = b ! i \<or> next_addr s4 \<le> q"
      "heap s5 q = Some (Streamline c (ms ! i))" by blast
    have "q < ?n \<or> Suc (Suc (Suc ?n)) \<le> q" using q(2) b [OF that] A6 by auto
    with q show ?thesis by blast
  qed
  have B5: "heap s5 r = heap s4 r" if "r < next_addr s4" "r \<noteq> ?tB" for r
    using B0(5) that by simp
  have B6: "mdf_calls s5 = mdf_calls s" using B0(7) A7 by simp
  \<comment> \<open>what the third loop nest starts from\<close>
  have hA5: "heap s5 ?tA = Some (ObjectArray xsA)" using B5 [of ?tA] A(2) A6 by simp
  have dm5: "heap s5 ?dm = Some (DoubleMatrix (length b) (replicate (length a * length b) (Fin 0)))"
    using B5 [of ?dm] A5 [of ?dm] A6 by (simp add: s3 np_zeros_double_def)
  have okA: "tracks_ok s5 ?dm ?tA ss"
    unfolding tracks_ok_def
  proof (intro conjI exI [of _ xsA] allI impI)
    fix i assume "i < length ss"
    then have i: "i < length a" by (simp add: la)
    from A4 [OF i] obtain q c where q: "xsA ! i = Some q" "q < ?n \<or> Suc (Suc (Suc ?n)) \<le> q"
      "q < next_addr s4" "heap s4 q = Some (Streamline c (ss ! i))" by blast
    have "heap s5 q = heap s4 q" using q(2,3) by (intro B5) auto
    with q show "\<exists>q c. xsA ! i = Some q \<and> q \<noteq> ?dm \<and> heap s5 q = Some (Streamline c (ss ! i))"
      by auto
  qed (simp_all add: hA5 A3 la)
  have okB: "tracks_ok s5 ?dm ?tB ms"
    unfolding tracks_ok_def
  proof (intro conjI exI [of _ xsB] allI impI)
    fix i assume "i < length ms"
    then have i: "i < length b" by (simp add: lb)
    from B4 [OF i] show "\<exists>q c. xsB ! i = Some q \<and> q \<noteq> ?dm \<and> heap s5 q = Some (Streamline c (ms ! i))"
      by auto
  qed (simp_all add: B(2) B3 lb)
  have t0: "track_points s5 ?tA 0 = Inr (ss ! 0)"
    using okA a0 la by (simp add: track_points_ok)
  have l0: "length (ss ! 0) = rows" using assms(5) a0 la by (simp add: nth_mem)
  let ?T = "\<lambda>p q. min_direct_flip_dist rnd (flatten p) (flatten q) rows"
  let ?data = "foldl (\<lambda>d i. foldl (\<lambda>d j. d[i * length b + j := ?T (ss ! i) (ms ! j)]) d [0..<length b])
                 (replicate (length a * length b) (Fin 0)) [0..<length a]"
  let ?s6 = "s5\<lparr>heap := (heap s5)(?dm \<mapsto> DoubleMatrix (length b) ?data),
                mdf_calls := mdf_calls s5 + length [0..<length a] * length [0..<length b]\<rparr>"
  have rows: "dm_rows rnd ?tA ?tB ?dm rows [0..<length a] [0..<length b] s5 = (None, ?s6)"
    using okA okB dm5 by (rule dm_rows_ok) (simp_all add: la lb)
  have data: "?data = concat (map (\<lambda>p. map (?T p) ms) ss)"
    using flat_rows [of "length a" "length b" "replicate (length a * length b) (Fin 0)" "\<lambda>i j. ?T (ss ! i) (ms ! j)"]
      pairs_by_index [of ?T ss ms]
    by (simp add: la lb)
  let ?rest = "\<lambda>tA tB dm s3.
        case shape0_of s3 a 0 of
           Inl e \<Rightarrow> (Inl e, s3)
         | Inr na \<Rightarrow>
        (case shape0_of s3 b 0 of
           Inl e \<Rightarrow> (Inl e, s3)
         | Inr nb \<Rightarrow>
        if na \<noteq> nb then (Inl ValueError, s3)
        else
        (case fill_tracks tA a [0..<length a] s3 of
           (Some e, s4) \<Rightarrow> (Inl e, s4)
         | (None, s4) \<Rightarrow>
        (case fill_tracks tB b [0..<length b] s4 of
           (Some e, s5) \<Rightarrow> (Inl e, s5)
         | (None, s5) \<Rightarrow>
        (case track_points s5 tA 0 of
           Inl e \<Rightarrow> (Inl e, s5)
         | Inr t0 \<Rightarrow>
        (case dm_rows rnd tA tB dm (length t0) [0..<length a] [0..<length b] s5 of
           (Some e, s6) \<Rightarrow> (Inl e, s6)
         | (None, s6) \<Rightarrow> (Inr dm, s6))))))"
  have "distance_matrix_mdf rnd a b s = ?rest ?tA ?tB ?dm s3"
    by (simp only: distance_matrix_mdf_def Let_def al1 al2 al3 prod.case)
  also have "\<dots> = (Inr ?dm, ?s6)"
    by (simp add: sa sb A(1) B(1) t0 l0 rows)
  finally have run: "distance_matrix_mdf rnd a b s = (Inr ?dm, ?s6)" .
  show ?thesis
    unfolding run using data B6 by (intro exI [of _ ?s6]) (simp add: la lb)
qed

section \<open>Binary64 rounding is sane and odd\<close>

lemma rhe_spec:
  "\<bar>q - of_int (round_half_even q)\<bar> < 1 / 2 \<or>
   (\<bar>q - of_int (round_half_even q)\<bar> = 1 / 2 \<and> even (round_half_even q))"
proof -
  have "of_int \<lfloor>q\<rfloor> \<le> q" "q < of_int \<lfloor>q\<rfloor> + 1" by linarith+
  then show ?thesis
    unfolding round_half_even_def Let_def by (auto simp: abs_if) linarith+
qed

lemma rhe_of_int: "round_half_even (of_int n) = n"
  by (rule round_half_even_near) simp

lemma rhe_neg: "round_half_even (- q) = - round_half_even q"
proof (rule round_half_even_near)
  have "\<bar>- q - of_int (- round_half_even q)\<bar> = \<bar>q - of_int (round_half_even q)\<bar>" by simp
  with rhe_spec [of q]
  show "\<bar>- q - of_int (- round_half_even q)\<bar> < 1 / 2 \<or>
        (\<bar>- q - of_int (- round_half_even q)\<bar> = 1 / 2 \<and> even (- round_half_even q))"
    by simp
qed

lemma rhe_mono:
  assumes "q1 \<le> q2"
  shows "round_half_even q1 \<le> round_half_even q2"
proof (rule ccontr)
  let ?n1 = "round_half_even q1" and ?n2 = "round_half_even q2"
  assume "\<not> ?n1 \<le> ?n2"
  then have gt: "?n2 + 1 \<le> ?n1" by simp
  then have r: "real_of_int ?n2 + 1 \<le> real_of_int ?n1" by linarith
  have a1: "\<bar>q1 - of_int ?n1\<bar> \<le> 1 / 2" and a2: "\<bar>q2 - of_int ?n2\<bar> \<le> 1 / 2"
    using rhe_spec [of q1] rhe_spec [of q2] by auto
  have e1: "q1 = of_int ?n1 - 1 / 2" and e2: "q2 = of_int ?n2 + 1 / 2" and e3: "real_of_int ?n1 = of_int ?n2 + 1"
    using a1 a2 r assms by (auto simp: abs_if split: if_splits)
  have "even ?n1" using rhe_spec [of q1] e1 by (auto simp: abs_if split: if_splits)
  moreover have "even ?n2" using rhe_spec [of q2] e2 by (auto simp: abs_if split: if_splits)
  moreover have "?n1 = ?n2 + 1" using e3 by linarith
  ultimately show False by simp
qed

lemma ulp64_binade: "ulp64 x = 2 powi (binade x - 52)"
  by (simp add: ulp64_def)

lemma ulp64_pos: "0 < ulp64 x"
  by (simp add: ulp64_def)

lemma ulp64_neg: "ulp64 (- x) = ulp64 x"
  by (simp add: ulp64_def binade_def)

lemma raw64_0: "raw64 0 = 0"
  using rhe_of_int [of 0] by (simp add: raw64_def)

lemma raw64_neg: "raw64 (- x) = - raw64 x"
  by (simp add: raw64_def ulp64_neg rhe_neg)

lemma rnd64_clamp: "rnd64 x = clamp64 (raw64 x)"
  using dbl_max_pos by (simp add: rnd64_def clamp64_def raw64_def Let_def rhe_of_int [of 0, simplified])

lemma clamp64_mono: "y1 \<le> y2 \<Longrightarrow> fle (clamp64 y1) (clamp64 y2)"
  using dbl_max_pos by (auto simp: clamp64_def)

lemma clamp64_neg: "clamp64 (- y) = fneg (clamp64 y)"
  using dbl_max_pos by (auto simp: clamp64_def)

lemma binade_bounds:
  assumes "0 < x"
  shows "x < 2 powi (binade x + 1)" "- 1022 \<le> \<lfloor>log 2 x\<rfloor> \<Longrightarrow> 2 powi (binade x) \<le> x"
proof -
  let ?k = "\<lfloor>log 2 x\<rfloor>"
  have b: "2 powr (real_of_int ?k) \<le> x \<and> x < 2 powr (real_of_int ?k + 1)"
    using floor_log_eq_powr_iff [of x 2 ?k] assms by simp
  have p: "2 powr (real_of_int k) = (2::real) powi k" for k
    by (simp add: powr_real_of_int')
  have b1: "2 powi ?k \<le> x" using b p [of ?k] by simp
  have "2 powr (real_of_int ?k + 1) = (2::real) powi (?k + 1)"
    using p [of "?k + 1"] by simp
  then have b2: "x < 2 powi (?k + 1)" using b by simp
  have bx: "binade x = max ?k (- 1022)"
    using assms by (simp only: binade_def abs_of_pos)
  have "?k \<le> binade x" unfolding bx by (rule max.cobounded1)
  then have "(2::real) powi (?k + 1) \<le> 2 powi (binade x + 1)"
    by (intro power_int_increasing) simp_all
  with b2 show "x < 2 powi (binade x + 1)" by (rule less_le_trans)
  show "2 powi (binade x) \<le> x" if "- 1022 \<le> ?k"
  proof -
    have "binade x = ?k" unfolding bx using that by (rule max.absorb1)
    with b1 show ?thesis by (simp only:)
  qed
qed

lemma binade_mono: "0 < x \<Longrightarrow> x \<le> y \<Longrightarrow> binade x \<le> binade y"
  unfolding binade_def by (intro max.mono floor_mono) (simp_all)

lemma raw64_upper:
  assumes "0 < x"
  shows "raw64 x \<le> 2 powi (binade x + 1)"
proof -
  let ?u = "ulp64 x"
  have u: "?u = 2 powi (binade x - 52)" by (rule ulp64_binade)
  have "2 powi (binade x + 1) = (2::real) powi 53 * 2 powi (binade x - 52)"
    using power_int_add [of "2::real" 53 "binade x - 52"] by (simp add: add.commute)
  then have top: "2 powi (binade x + 1) = 2 ^ 53 * ?u" by (simp add: u)
  have "x / ?u \<le> 2 ^ 53"
    using binade_bounds(1) [OF assms] top ulp64_pos [of x] by (simp add: field_simps)
  then have "round_half_even (x / ?u) \<le> round_half_even (of_int (2 ^ 53))"
    by (intro rhe_mono) simp
  then have "round_half_even (x / ?u) \<le> 2 ^ 53" by (simp only: rhe_of_int)
  then have "real_of_int (round_half_even (x / ?u)) \<le> 2 ^ 53"
    by (metis of_int_le_iff of_int_numeral of_int_power)
  then show ?thesis
    unfolding raw64_def top using ulp64_pos [of x] by (simp add: mult_right_mono)
qed

lemma raw64_lower:
  assumes "0 < x" "- 1022 \<le> \<lfloor>log 2 x\<rfloor>"
  shows "2 powi (binade x) \<le> raw64 x"
proof -
  let ?u = "ulp64 x"
  have u: "?u = 2 powi (binade x - 52)" by (rule ulp64_binade)
  have "2 powi (binade x) = (2::real) powi 52 * 2 powi (binade x - 52)"
    using power_int_add [of "2::real" 52 "binade x - 52"] by (simp add: add.commute)
  then have bot: "2 powi (binade x) = 2 ^ 52 * ?u" by (simp add: u)
  have "2 ^ 52 \<le> x / ?u"
    using binade_bounds(2) [OF assms] bot ulp64_pos [of x] by (simp add: field_simps)
  then have "round_half_even (of_int (2 ^ 52)) \<le> round_half_even (x / ?u)"
    by (intro rhe_mono) simp
  then have "2 ^ 52 \<le> round_half_even (x / ?u)" by (simp only: rhe_of_int)
  then have "2 ^ 52 \<le> real_of_int (round_half_even (x / ?u))"
    by (metis of_int_le_iff of_int_numeral of_int_power)
  then show ?thesis
    unfolding raw64_def bot using ulp64_pos [of x] by (simp add: mult_right_mono)
qed

lemma raw64_nonneg: "0 \<le> x \<Longrightarrow> 0 \<le> raw64 x"
proof -
  assume "0 \<le> x"
  then have "0 \<le> x / ulp64 x" using ulp64_pos [of x] by simp
  then have "round_half_even (of_int 0) \<le> round_half_even (x / ulp64 x)"
    by (intro rhe_mono) simp
  then have "0 \<le> round_half_even (x / ulp64 x)" by (simp only: rhe_of_int)
  then show ?thesis using ulp64_pos [of x] by (simp add: raw64_def)
qed

lemma raw64_mono_pos:
  assumes "0 < x" "x \<le> y"
  shows "raw64 x \<le> raw64 y"
proof -
  have y: "0 < y" using assms by simp
  have le: "binade x \<le> binade y" using assms by (rule binade_mono)
  show ?thesis
  proof (cases "binade x = binade y")
    case True
    then have u: "ulp64 y = ulp64 x" by (simp add: ulp64_binade)
    have "x / ulp64 x \<le> y / ulp64 x" using assms(2) ulp64_pos [of x] by (simp add: divide_right_mono)
    then have "round_half_even (x / ulp64 x) \<le> round_half_even (y / ulp64 x)" by (rule rhe_mono)
    then show ?thesis
      unfolding raw64_def u using ulp64_pos [of x] by (simp add: mult_right_mono)
  next
    case False
    with le have lt: "binade x + 1 \<le> binade y" by simp
    have "- 1022 \<le> binade x" by (simp add: binade_def)
    with lt have "- 1022 < binade y" by simp
    then have n: "- 1022 \<le> \<lfloor>log 2 y\<rfloor>" using y by (simp add: binade_def max_def split: if_splits)
    have "raw64 x \<le> 2 powi (binade x + 1)" using assms(1) by (rule raw64_upper)
    also have "\<dots> \<le> 2 powi (binade y)" using lt by (intro power_int_increasing) simp_all
    also have "\<dots> \<le> raw64 y" using y n by (rule raw64_lower)
    finally show ?thesis .
  qed
qed

lemma raw64_mono:
  assumes "x \<le> y"
  shows "raw64 x \<le> raw64 y"
proof -
  consider "0 < x" | "x \<le> 0" "0 \<le> y" | "y < 0" using assms by linarith
  then show ?thesis
  proof cases
    case 1
    then show ?thesis using assms by (rule raw64_mono_pos)
  next
    case 2
    have "0 \<le> raw64 (- x)" using 2(1) by (intro raw64_nonneg) simp
    then have "raw64 x \<le> 0" by (simp add: raw64_neg)
    also have "0 \<le> raw64 y" using 2(2) by (rule raw64_nonneg)
    finally show ?thesis .
  next
    case 3
    have "raw64 (- y) \<le> raw64 (- x)" using 3 assms by (intro raw64_mono_pos) simp_all
    then show ?thesis by (simp add: raw64_neg)
  qed
qed

lemma rnd64_mono: "x \<le> y \<Longrightarrow> fle (rnd64 x) (rnd64 y)"
  by (simp add: rnd64_clamp clamp64_mono raw64_mono)

lemma rnd64_neg: "rnd64 (- x) = fneg (rnd64 x)"
  by (simp add: rnd64_clamp clamp64_neg raw64_neg)

lemma rnd64_int_range:
  assumes "\<bar>x\<bar> \<le> 2 ^ 63"
  shows "is_finite (rnd64 x)"
proof -
  have top: "rnd64 (2 ^ 63) = Fin (2 ^ 63)" by (rule rnd64_power) simp
  have "rnd64 (- (2 ^ 63)) = fneg (rnd64 (2 ^ 63))" by (rule rnd64_neg)
  then have bot: "rnd64 (- (2 ^ 63)) = Fin (- (2 ^ 63))" by (simp only: top fneg.simps)
  have "fle (rnd64 x) (rnd64 (2 ^ 63))" using assms by (intro rnd64_mono) simp
  moreover have "fle (rnd64 (- (2 ^ 63))) (rnd64 x)" using assms by (intro rnd64_mono) simp
  ultimately show ?thesis
    unfolding top bot by (cases "rnd64 x") simp_all
qed

lemma rounding_sane_binary64: "rounding_sane rnd64"
  unfolding rounding_sane_def
  using rnd64_0 rnd64_1 rnd64_mono rnd64_int_range by blast

lemma rounding_odd_binary64: "rounding_odd rnd64"
  by (simp add: rounding_odd_def rnd64_neg)

section \<open>Minima that start at the largest finite double\<close>

lemma dist_like_cases: "dist_like v \<longleftrightarrow> v = PInf \<or> (\<exists>a. v = Fin a \<and> 0 \<le> a \<and> a \<le> dbl_max)"
  by (cases v) (auto simp: dist_like_def finfo_f8_max_def)

lemma dist_like_nonneg: "dist_like v \<Longrightarrow> fle (Fin 0) v"
  by (simp add: dist_like_def)

lemma dist_like_not_nan: "dist_like v \<Longrightarrow> \<not> is_nan v"
  by (auto simp: dist_like_cases)

lemma clamp64_range: "clamp64 y = PInf \<or> fle (clamp64 y) finfo_f8_max"
  by (simp add: clamp64_def finfo_f8_max_def)

lemma rnd64_range: "rnd64 x = PInf \<or> fle (rnd64 x) finfo_f8_max"
  unfolding rnd64_clamp by (rule clamp64_range)

lemma fdiv64_range:
  "is_nan (fdiv rnd64 x y) \<or> fdiv rnd64 x y = PInf \<or> fle (fdiv rnd64 x y) finfo_f8_max"
proof (cases x)
  case (Fin a)
  then show ?thesis
    using rnd64_range [of "a / b" for b] dbl_max_pos
    by (cases y) (auto simp: finfo_f8_max_def)
next
  case PInf
  then show ?thesis by (cases y) (auto simp: finfo_f8_max_def)
next
  case NInf
  then show ?thesis by (cases y) (auto simp: finfo_f8_max_def)
next
  case NaN
  then show ?thesis by simp
qed

lemma mdf64_dist_like:
  assumes "\<not> is_nan (min_direct_flip_dist rnd64 a b rows)"
  shows "dist_like (min_direct_flip_dist rnd64 a b rows)"
proof -
  let ?d = "min_direct_flip_dist rnd64 a b rows"
  have "nn_or_nan ?d" using rounding_sane_binary64 by (rule mdf_nn_any)
  with assms have nn: "fle (Fin 0) ?d" by (simp add: nn_or_nan_def)
  have "is_nan ?d \<or> ?d = PInf \<or> fle ?d finfo_f8_max"
    unfolding min_direct_flip_dist_def Let_def
    using fdiv64_range by (simp split: if_splits)
  with assms nn show ?thesis by (simp add: dist_like_def)
qed

lemma np_minimum_upd1:
  "\<not> is_nan t \<Longrightarrow> \<not> is_nan x \<Longrightarrow>
   np_minimum (upd1 t finfo_f8_max) x = upd1 (np_minimum t x) finfo_f8_max"
  by (cases t; cases x) (auto simp: upd1_def np_minimum_def finfo_f8_max_def)

lemma upd1_not_nan: "\<not> is_nan t \<Longrightarrow> \<not> is_nan (upd1 t finfo_f8_max)"
  by (simp add: upd1_def finfo_f8_max_def)

lemma foldl_minimum_upd1:
  "\<not> is_nan t \<Longrightarrow> \<forall>x\<in>set xs. \<not> is_nan x \<Longrightarrow>
   foldl np_minimum (upd1 t finfo_f8_max) xs = upd1 (foldl np_minimum t xs) finfo_f8_max"
proof (induction xs arbitrary: t)
  case Nil
  then show ?case by simp
next
  case (Cons x xs)
  then show ?case by (simp add: np_minimum_upd1 np_minimum_not_nan)
qed

lemma run_min_capped:
  assumes "ts \<noteq> []" "\<forall>t\<in>set ts. \<not> is_nan t"
  shows "run_min finfo_f8_max ts = upd1 (amin ts) finfo_f8_max"
proof -
  obtain t ts' where ts: "ts = t # ts'" using assms(1) by (cases ts) auto
  have "run_min finfo_f8_max ts = run_min (upd1 t finfo_f8_max) ts'"
    by (simp add: ts run_min_def upd1_def)
  also have "\<dots> = foldl np_minimum (upd1 t finfo_f8_max) ts'"
    using assms(2) ts by (intro run_min_foldl_minimum) (simp_all add: upd1_not_nan)
  also have "\<dots> = upd1 (foldl np_minimum t ts') finfo_f8_max"
    using assms(2) ts by (intro foldl_minimum_upd1) simp_all
  finally show ?thesis by (simp add: ts)
qed

lemma foldl_minimum_mem:
  "\<not> is_nan t \<Longrightarrow> \<forall>x\<in>set xs. \<not> is_nan x \<Longrightarrow> foldl np_minimum t xs \<in> set (t # xs)"
proof (induction xs arbitrary: t)
  case Nil
  then show ?case by simp
next
  case (Cons x xs)
  have "np_minimum t x = t \<or> np_minimum t x = x" by (simp add: np_minimum_def)
  moreover have "foldl np_minimum (np_minimum t x) xs \<in> set (np_minimum t x # xs)"
    using Cons by (intro Cons.IH) (simp_all add: np_minimum_not_nan)
  ultimately show ?case by auto
qed

lemma amin_mem: "ts \<noteq> [] \<Longrightarrow> \<forall>t\<in>set ts. \<not> is_nan t \<Longrightarrow> amin ts \<in> set ts"
  using foldl_minimum_mem by (cases ts) auto

lemma foldl_minimum_nan:
  "is_nan t \<or> (\<exists>x\<in>set xs. is_nan x) \<Longrightarrow> is_nan (foldl np_minimum t xs)"
proof (induction xs arbitrary: t)
  case Nil
  then show ?case by simp
next
  case (Cons x xs)
  have "is_nan t \<or> is_nan x \<Longrightarrow> is_nan (np_minimum t x)" by (auto simp: np_minimum_def)
  with Cons show ?case by auto
qed

lemma amin_nan: "\<exists>t\<in>set ts. is_nan t \<Longrightarrow> amin ts = NaN"
proof (cases ts)
  case Nil
  then show ?thesis by simp
next
  case (Cons t ts')
  assume "\<exists>t\<in>set ts. is_nan t"
  then have "is_nan (foldl np_minimum t ts')" using Cons by (intro foldl_minimum_nan) auto
  then show ?thesis using Cons by (cases "foldl np_minimum t ts'") auto
qed

lemma fadd_nan: "is_nan x \<or> is_nan y \<Longrightarrow> is_nan (fadd rnd x y)"
  by (cases x; cases y) auto

lemma foldl_fadd_nan:
  "is_nan acc \<or> (\<exists>x\<in>set xs. is_nan x) \<Longrightarrow> is_nan (foldl (fadd rnd) acc xs)"
proof (induction xs arbitrary: acc)
  case Nil
  then show ?case by simp
next
  case (Cons x xs)
  have "is_nan acc \<or> is_nan x \<Longrightarrow> is_nan (fadd rnd acc x)" by (rule fadd_nan)
  with Cons show ?case by auto
qed

lemma fmean_nan: "\<exists>x\<in>set xs. is_nan x \<Longrightarrow> fmean rnd xs = NaN"
proof -
  assume "\<exists>x\<in>set xs. is_nan x"
  then have "is_nan (fsum rnd xs)" unfolding fsum_def by (intro foldl_fadd_nan) simp
  then show ?thesis by (cases "fsum rnd xs") (auto simp: fmean_def)
qed

lemma upd1_fixed: "dist_like r \<Longrightarrow> fle r finfo_f8_max \<Longrightarrow> upd1 r finfo_f8_max = r"
  by (cases r) (auto simp: upd1_def finfo_f8_max_def)

lemma upd1_dist_like: "dist_like r \<Longrightarrow> dist_like (upd1 r finfo_f8_max)"
  using dbl_max_pos by (cases r) (auto simp: upd1_def finfo_f8_max_def dist_like_def)

lemma upd1_top: "dist_like r \<Longrightarrow> \<not> fle r finfo_f8_max \<Longrightarrow> upd1 r finfo_f8_max = finfo_f8_max"
  by (cases r) (auto simp: upd1_def finfo_f8_max_def dist_like_def)

lemma not_le_max: "dist_like r \<Longrightarrow> \<not> fle r finfo_f8_max \<Longrightarrow> r = PInf"
  by (auto simp: dist_like_def)

lemma fadd_inf: "fle (Fin 0) x \<Longrightarrow> fadd rnd x PInf = PInf" "fle (Fin 0) x \<Longrightarrow> fadd rnd PInf x = PInf"
  by (cases x; simp)+

lemma foldl_fadd_inf:
  assumes "rounding_sane rnd" "\<forall>x\<in>set xs. fle (Fin 0) x"
    and "acc = PInf \<or> (fle (Fin 0) acc \<and> PInf \<in> set xs)"
  shows "foldl (fadd rnd) acc xs = PInf"
  using assms(2,3)
proof (induction xs arbitrary: acc)
  case Nil
  then show ?case by simp
next
  case (Cons x xs)
  have "fadd rnd acc x = PInf \<or> (fle (Fin 0) (fadd rnd acc x) \<and> PInf \<in> set xs)"
    using Cons.prems assms(1) by (auto simp: fadd_inf fadd_nonneg)
  with Cons show ?case by simp
qed

lemma fadd_ge:
  assumes "rounding_sane rnd" "rnd c = Fin c"
    and "(fle (Fin c) x \<and> fle (Fin 0) y) \<or> (fle (Fin 0) x \<and> fle (Fin c) y)"
  shows "fle (Fin c) (fadd rnd x y)"
proof (cases x)
  case x: (Fin a)
  show ?thesis
  proof (cases y)
    case y: (Fin b)
    have "c \<le> a + b" using assms(3) x y by auto
    then have "fle (rnd c) (rnd (a + b))" by (rule sane_mono [OF assms(1)])
    then show ?thesis by (simp add: x y assms(2))
  qed (use assms(3) x in auto)
next
  case PInf
  with assms(3) show ?thesis by (cases y) auto
next
  case NInf
  with assms(3) show ?thesis by auto
next
  case NaN
  with assms(3) show ?thesis by auto
qed

lemma foldl_fadd_ge:
  assumes "rounding_sane rnd" "rnd c = Fin c" "0 \<le> c" "\<forall>x\<in>set xs. fle (Fin 0) x"
    and "fle (Fin c) acc \<or> (fle (Fin 0) acc \<and> (\<exists>x\<in>set xs. fle (Fin c) x))"
  shows "fle (Fin c) (foldl (fadd rnd) acc xs)"
  using assms(4,5)
proof (induction xs arbitrary: acc)
  case Nil
  then show ?case by simp
next
  case (Cons x xs)
  have c0: "fle (Fin c) z \<Longrightarrow> fle (Fin 0) z" for z
    using assms(3) by (cases z) auto
  have x: "fle (Fin 0) x" using Cons.prems by simp
  consider "fle (Fin c) acc" | "fle (Fin 0) acc" "fle (Fin c) x"
    | "fle (Fin 0) acc" "\<exists>x\<in>set xs. fle (Fin c) x"
    using Cons.prems by auto
  then have "fle (Fin c) (fadd rnd acc x) \<or> (fle (Fin 0) (fadd rnd acc x) \<and> (\<exists>x\<in>set xs. fle (Fin c) x))"
  proof cases
    case 1
    then show ?thesis using fadd_ge [OF assms(1,2), of acc x] x by simp
  next
    case 2
    then show ?thesis using fadd_ge [OF assms(1,2), of acc x] by simp
  next
    case 3
    then show ?thesis using fadd_nonneg [OF assms(1), of acc x] x by simp
  qed
  with Cons show ?case by simp
qed

lemma count64:
  assumes "1 \<le> n" "real n \<le> 2 ^ 63"
  shows "\<exists>k. double_of_intp rnd64 n = Fin k \<and> 1 \<le> k \<and> k \<le> 2 ^ 63"
proof -
  have top: "rnd64 (2 ^ 63) = Fin (2 ^ 63)" by (rule rnd64_power) simp
  have "fle (rnd64 1) (rnd64 (real n))" using assms(1) by (intro rnd64_mono) simp
  moreover have "fle (rnd64 (real n)) (rnd64 (2 ^ 63))" using assms(2) by (rule rnd64_mono)
  ultimately show ?thesis
    unfolding top rnd64_1 double_of_intp_def by (cases "rnd64 (real n)") simp_all
qed

lemma rnd64_big: "rnd64 big = Fin big"
  unfolding big_def by (rule rnd64_power) simp

lemma big_pos: "0 < big"
  by (simp add: big_def)

lemma big_le_share: "big * 2 ^ 63 \<le> dbl_max"
proof -
  have "big * 2 ^ 63 = (2::real) ^ 663" by (simp add: big_def flip: power_add)
  also have "\<dots> \<le> 2 ^ 1023" by (rule power_increasing) simp_all
  also have "\<dots> \<le> dbl_max" by (simp add: dbl_max_def)
  finally show ?thesis .
qed

lemma fmean64_ge:
  assumes "xs \<noteq> []" "real (length xs) \<le> 2 ^ 63" "\<forall>x\<in>set xs. fle (Fin 0) x"
    and "finfo_f8_max \<in> set xs"
  shows "fle (Fin big) (fmean rnd64 xs)"
proof -
  have "fle (Fin dbl_max) (foldl (fadd rnd64) (Fin 0) xs)"
    using rounding_sane_binary64 rnd64_dbl_max
  proof (rule foldl_fadd_ge)
    show "0 \<le> dbl_max" using dbl_max_pos by simp
    show "\<forall>x\<in>set xs. fle (Fin 0) x" by (rule assms(3))
    have "fle (Fin dbl_max) finfo_f8_max" by (simp add: finfo_f8_max_def)
    with assms(4) show "fle (Fin dbl_max) (Fin 0) \<or> (fle (Fin 0) (Fin 0) \<and> (\<exists>x\<in>set xs. fle (Fin dbl_max) x))"
      by auto
  qed
  then have s: "fle (Fin dbl_max) (fsum rnd64 xs)" by (simp add: fsum_def)
  have "1 \<le> length xs" using assms(1) by (simp add: Suc_le_eq)
  from count64 [OF this assms(2)] obtain k
    where k: "double_of_intp rnd64 (length xs) = Fin k" "1 \<le> k" "k \<le> 2 ^ 63" by blast
  show ?thesis
  proof (cases "fsum rnd64 xs")
    case (Fin v)
    with s have v: "dbl_max \<le> v" by simp
    have "big * k \<le> big * 2 ^ 63" using k(3) big_pos by simp
    also have "\<dots> \<le> dbl_max" by (rule big_le_share)
    also have "\<dots> \<le> v" by (rule v)
    finally have "big \<le> v / k" using k(2) by (simp add: field_simps)
    then have "fle (rnd64 big) (rnd64 (v / k))" by (rule rnd64_mono)
    then show ?thesis using k(1,2) Fin by (simp add: fmean_def rnd64_big)
  next
    case PInf
    then show ?thesis using k(1,2) by (simp add: fmean_def)
  next
    case NInf
    with s show ?thesis by simp
  next
    case NaN
    with s show ?thesis by simp
  qed
qed

lemma fmean64_inf:
  assumes "xs \<noteq> []" "real (length xs) \<le> 2 ^ 63" "\<forall>x\<in>set xs. fle (Fin 0) x" "PInf \<in> set xs"
  shows "fmean rnd64 xs = PInf"
proof -
  have "foldl (fadd rnd64) (Fin 0) xs = PInf"
    using rounding_sane_binary64 assms(3) by (rule foldl_fadd_inf) (simp add: assms(4))
  then have s: "fsum rnd64 xs = PInf" by (simp add: fsum_def)
  have "1 \<le> length xs" using assms(1) by (simp add: Suc_le_eq)
  from count64 [OF this assms(2)] obtain k
    where k: "double_of_intp rnd64 (length xs) = Fin k" "1 \<le> k" by blast
  then show ?thesis by (simp add: fmean_def s)
qed

lemma bundle_cost_inf:
  assumes "fle (Fin 0) y"
  shows "bundle_cost rnd PInf y = PInf" "bundle_cost rnd y PInf = PInf"
  using assms by (simp_all add: bundle_cost_def fadd_inf)

lemma bundle_cost64_big:
  assumes "(fle (Fin big) x \<and> fle (Fin 0) y) \<or> (fle (Fin 0) x \<and> fle (Fin big) y)"
  shows "bundle_cost rnd64 x y = PInf"
proof -
  have s: "fle (Fin big) (fadd rnd64 x y)"
    using rounding_sane_binary64 rnd64_big assms by (rule fadd_ge)
  show ?thesis
  proof (cases "fadd rnd64 x y")
    case (Fin v)
    with s have v: "big \<le> v" by simp
    have q: "rnd64 (big / 4) = Fin (big / 4)"
    proof -
      have e: "big / 4 = 2 ^ 598" by (simp add: big_def)
      show ?thesis unfolding e by (rule rnd64_power) simp
    qed
    have "fle (rnd64 (big / 4)) (rnd64 (v / 4))" using v by (intro rnd64_mono) simp
    then have w: "fle (Fin (big / 4)) (rnd64 (v / 4))" by (simp only: q)
    have vpos: "0 < v" using v big_pos by linarith
    show ?thesis
    proof (cases "rnd64 (v / 4)")
      case w': (Fin w)
      with w have wb: "big / 4 \<le> w" by simp
      have o: "rnd64 (2 ^ 1198) = PInf" by (rule rnd64_power_overflow) simp
      have "(2::real) ^ 1198 = big / 4 * big" by (simp add: big_def)
      also have "\<dots> \<le> w * v" using wb v big_pos by (intro mult_mono) simp_all
      finally have "fle (rnd64 (2 ^ 1198)) (rnd64 (w * v))" by (rule rnd64_mono)
      then have "rnd64 (w * v) = PInf" unfolding o by (cases "rnd64 (w * v)") simp_all
      then show ?thesis by (simp add: bundle_cost_def Fin w')
    next
      case PInf
      then show ?thesis using vpos by (simp add: bundle_cost_def Fin)
    next
      case NInf
      with w show ?thesis by simp
    next
      case NaN
      with w show ?thesis by simp
    qed
  next
    case PInf
    then show ?thesis by (simp add: bundle_cost_def)
  next
    case NInf
    with s show ?thesis by simp
  next
    case NaN
    with s show ?thesis by simp
  qed
qed

lemma capped_means:
  assumes "rs \<noteq> []" "real (length rs) \<le> 2 ^ 63" "\<forall>r\<in>set rs. dist_like r"
  shows "fle (Fin 0) (fmean rnd64 rs)"
    and "fle (Fin 0) (fmean rnd64 (map (\<lambda>r. upd1 r finfo_f8_max) rs))"
    and "(\<forall>r\<in>set rs. fle r finfo_f8_max) \<Longrightarrow> map (\<lambda>r. upd1 r finfo_f8_max) rs = rs"
    and "\<not> (\<forall>r\<in>set rs. fle r finfo_f8_max) \<Longrightarrow>
           fmean rnd64 rs = PInf \<and> fle (Fin big) (fmean rnd64 (map (\<lambda>r. upd1 r finfo_f8_max) rs))"
proof -
  have nn: "\<forall>r\<in>set rs. fle (Fin 0) r" using assms(3) by (simp add: dist_like_nonneg)
  have nn': "\<forall>r\<in>set (map (\<lambda>r. upd1 r finfo_f8_max) rs). fle (Fin 0) r"
    using assms(3) by (auto intro: dist_like_nonneg upd1_dist_like)
  show "fle (Fin 0) (fmean rnd64 rs)"
    using rounding_sane_binary64 assms(1,2) nn by (rule fmean_nonneg)
  show "fle (Fin 0) (fmean rnd64 (map (\<lambda>r. upd1 r finfo_f8_max) rs))"
    using rounding_sane_binary64 _ _ nn' by (rule fmean_nonneg) (use assms(1,2) in simp_all)
  show "map (\<lambda>r. upd1 r finfo_f8_max) rs = rs" if "\<forall>r\<in>set rs. fle r finfo_f8_max"
    using that assms(3) by (intro map_idI) (simp add: upd1_fixed)
  show "fmean rnd64 rs = PInf \<and> fle (Fin big) (fmean rnd64 (map (\<lambda>r. upd1 r finfo_f8_max) rs))"
    if "\<not> (\<forall>r\<in>set rs. fle r finfo_f8_max)"
  proof -
    from that obtain r where r: "r \<in> set rs" "\<not> fle r finfo_f8_max" by blast
    then have "r = PInf" using assms(3) by (simp add: not_le_max)
    with r have i: "PInf \<in> set rs" by simp
    have "upd1 r finfo_f8_max = finfo_f8_max" using r assms(3) by (simp add: upd1_top)
    with r(1) have t: "finfo_f8_max \<in> set (map (\<lambda>r. upd1 r finfo_f8_max) rs)" by force
    have "fmean rnd64 rs = PInf" using assms(1,2) nn i by (rule fmean64_inf)
    moreover have "fle (Fin big) (fmean rnd64 (map (\<lambda>r. upd1 r finfo_f8_max) rs))"
      using _ _ nn' t by (rule fmean64_ge) (use assms(1,2) in simp_all)
    ultimately show ?thesis ..
  qed
qed

lemma capped_cost:
  assumes "rs \<noteq> []" "real (length rs) \<le> 2 ^ 63" "\<forall>r\<in>set rs. dist_like r"
    and "cs \<noteq> []" "real (length cs) \<le> 2 ^ 63" "\<forall>c\<in>set cs. dist_like c"
  shows "bundle_cost rnd64 (fmean rnd64 (map (\<lambda>r. upd1 r finfo_f8_max) rs))
                           (fmean rnd64 (map (\<lambda>r. upd1 r finfo_f8_max) cs))
         = bundle_cost rnd64 (fmean rnd64 rs) (fmean rnd64 cs)"
proof -
  note r = capped_means [OF assms(1-3)]
  note c = capped_means [OF assms(4-6)]
  show ?thesis
  proof (cases "\<forall>r\<in>set rs. fle r finfo_f8_max")
    case rfin: True
    show ?thesis
    proof (cases "\<forall>r\<in>set cs. fle r finfo_f8_max")
      case True
      with rfin show ?thesis by (simp only: r(3) c(3))
    next
      case False
      from c(4) [OF False] r(1,2) show ?thesis
        by (simp add: bundle_cost_inf bundle_cost64_big)
    qed
  next
    case False
    from r(4) [OF False] c(1,2) show ?thesis
      by (simp add: bundle_cost_inf bundle_cost64_big)
  qed
qed

lemma bmd_on_stack:
  assumes "\<forall>s\<in>set ss. length s = rows" "\<forall>m\<in>set ms. length m = rows"
  shows "bundle_minimum_distance rnd (stack ss) (stack ms) (length ss) (length ms) rows junk =
     bundle_cost rnd
       (fmean rnd (map (\<lambda>s. run_min finfo_f8_max
           (map (\<lambda>m. min_direct_flip_dist rnd (flatten s) (flatten m) rows) ms)) ss))
       (fmean rnd (map (\<lambda>m. run_min finfo_f8_max
           (map (\<lambda>s. min_direct_flip_dist rnd (flatten s) (flatten m) rows) ss)) ms))"
proof -
  let ?T = "\<lambda>s m. min_direct_flip_dist rnd (flatten s) (flatten m) rows"
  let ?pd = "pair_dist rnd (stack ss) (stack ms) rows"
  have pd: "\<And>i j. i < length ss \<Longrightarrow> j < length ms \<Longrightarrow> ?pd i j = ?T (ss ! i) (ms ! j)"
    using assms by (simp add: pair_dist_stack)
  have r: "map (\<lambda>i. run_min finfo_f8_max (map (?pd i) [0..<length ms])) [0..<length ss]
           = map (\<lambda>s. run_min finfo_f8_max (map (?T s) ms)) ss"
  proof (rule nth_equalityI)
    show "length (map (\<lambda>i. run_min finfo_f8_max (map (?pd i) [0..<length ms])) [0..<length ss])
          = length (map (\<lambda>s. run_min finfo_f8_max (map (?T s) ms)) ss)" by simp
  next
    fix i assume "i < length (map (\<lambda>i. run_min finfo_f8_max (map (?pd i) [0..<length ms])) [0..<length ss])"
    then have i: "i < length ss" by simp
    have "map (?pd i) [0..<length ms] = map (?T (ss ! i)) ms"
      by (rule nth_equalityI) (use i pd in auto)
    then show "map (\<lambda>i. run_min finfo_f8_max (map (?pd i) [0..<length ms])) [0..<length ss] ! i
          = map (\<lambda>s. run_min finfo_f8_max (map (?T s) ms)) ss ! i"
      using i by simp
  qed
  have c: "map (\<lambda>j. run_min finfo_f8_max (map (\<lambda>i. ?pd i j) [0..<length ss])) [0..<length ms]
           = map (\<lambda>m. run_min finfo_f8_max (map (\<lambda>s. ?T s m) ss)) ms"
  proof (rule nth_equalityI)
    show "length (map (\<lambda>j. run_min finfo_f8_max (map (\<lambda>i. ?pd i j) [0..<length ss])) [0..<length ms])
          = length (map (\<lambda>m. run_min finfo_f8_max (map (\<lambda>s. ?T s m) ss)) ms)" by simp
  next
    fix j assume "j < length (map (\<lambda>j. run_min finfo_f8_max (map (\<lambda>i. ?pd i j) [0..<length ss])) [0..<length ms])"
    then have j: "j < length ms" by simp
    have "map (\<lambda>i. ?pd i j) [0..<length ss] = map (\<lambda>s. ?T s (ms ! j)) ss"
      by (rule nth_equalityI) (use j pd in auto)
    then show "map (\<lambda>j. run_min finfo_f8_max (map (\<lambda>i. ?pd i j) [0..<length ss])) [0..<length ms] ! j
          = map (\<lambda>m. run_min finfo_f8_max (map (\<lambda>s. ?T s m) ss)) ms ! j"
      using j by simp
  qed
  show ?thesis unfolding bmd_closed_form r c ..
qed

lemma bmd_formula_on_matrix:
  "bmd_formula rnd (map (\<lambda>s. map (T s) ms) ss) (length ms) =
     bundle_cost rnd (fmean rnd (map (\<lambda>s. amin (map (T s) ms)) ss))
                     (fmean rnd (map (\<lambda>m. amin (map (\<lambda>s. T s m) ss)) ms))"
proof -
  have c: "map (\<lambda>j. amin (map (\<lambda>row. row ! j) (map (\<lambda>s. map (T s) ms) ss))) [0..<length ms]
           = map (\<lambda>m. amin (map (\<lambda>s. T s m) ss)) ms"
  proof (rule nth_equalityI)
    show "length (map (\<lambda>j. amin (map (\<lambda>row. row ! j) (map (\<lambda>s. map (T s) ms) ss))) [0..<length ms])
          = length (map (\<lambda>m. amin (map (\<lambda>s. T s m) ss)) ms)" by simp
  next
    fix j assume "j < length (map (\<lambda>j. amin (map (\<lambda>row. row ! j) (map (\<lambda>s. map (T s) ms) ss))) [0..<length ms])"
    then have j: "j < length ms" by simp
    show "map (\<lambda>j. amin (map (\<lambda>row. row ! j) (map (\<lambda>s. map (T s) ms) ss))) [0..<length ms] ! j
          = map (\<lambda>m. amin (map (\<lambda>s. T s m) ss)) ms ! j"
      using j by (simp add: comp_def)
  qed
  have r: "map amin (map (\<lambda>s. map (T s) ms) ss) = map (\<lambda>s. amin (map (T s) ms)) ss"
    by simp
  show ?thesis unfolding bmd_formula_def r c ..
qed

lemma bmd64_agrees_iff:
  assumes "\<forall>s\<in>set ss. length s = rows" "\<forall>m\<in>set ms. length m = rows"
    and "ss \<noteq> []" "ms \<noteq> []" "length ss < 2 ^ 63" "length ms < 2 ^ 63"
    and "length D = length ss" "\<forall>r\<in>set D. length r = length ms"
  shows "bundle_minimum_distance rnd64 (stack ss) (stack ms) (length ss) (length ms) rows junk
         = bmd_formula rnd64
             (bundle_minimum_distance_matrix rnd64 (stack ss) (stack ms) (length ss) (length ms) rows D)
             (length ms)
         \<longleftrightarrow> (\<forall>s\<in>set ss. \<forall>m\<in>set ms.
                \<not> is_nan (min_direct_flip_dist rnd64 (flatten s) (flatten m) rows))"
proof -
  let ?T = "\<lambda>s m. min_direct_flip_dist rnd64 (flatten s) (flatten m) rows"
  let ?code = "bundle_minimum_distance rnd64 (stack ss) (stack ms) (length ss) (length ms) rows junk"
  let ?rs = "map (\<lambda>s. amin (map (?T s) ms)) ss"
  let ?cs = "map (\<lambda>m. amin (map (\<lambda>s. ?T s m) ss)) ms"
  have D: "bundle_minimum_distance_matrix rnd64 (stack ss) (stack ms) (length ss) (length ms) rows D
           = map (\<lambda>s. map (?T s) ms) ss"
    using assms(1,2,7,8) by (rule bmdm_on_stack)
  have formula: "bmd_formula rnd64
             (bundle_minimum_distance_matrix rnd64 (stack ss) (stack ms) (length ss) (length ms) rows D)
             (length ms) = bundle_cost rnd64 (fmean rnd64 ?rs) (fmean rnd64 ?cs)"
    unfolding D by (rule bmd_formula_on_matrix)
  have code: "?code = bundle_cost rnd64
       (fmean rnd64 (map (\<lambda>s. run_min finfo_f8_max (map (?T s) ms)) ss))
       (fmean rnd64 (map (\<lambda>m. run_min finfo_f8_max (map (\<lambda>s. ?T s m) ss)) ms))"
    using assms(1,2) by (rule bmd_on_stack)
  have ls: "real (length ss) \<le> 2 ^ 63" "real (length ms) \<le> 2 ^ 63"
    using assms(5,6) by (simp_all add: count_bound)
  show ?thesis
  proof (cases "\<forall>s\<in>set ss. \<forall>m\<in>set ms. \<not> is_nan (?T s m)")
    case True
    then have dl: "\<And>s m. s \<in> set ss \<Longrightarrow> m \<in> set ms \<Longrightarrow> dist_like (?T s m)"
      by (simp add: mdf64_dist_like)
    have r1: "run_min finfo_f8_max (map (?T s) ms) = upd1 (amin (map (?T s) ms)) finfo_f8_max"
      if "s \<in> set ss" for s
      by (rule run_min_capped) (use that True assms(4) in auto)
    have c1: "run_min finfo_f8_max (map (\<lambda>s. ?T s m) ss) = upd1 (amin (map (\<lambda>s. ?T s m) ss)) finfo_f8_max"
      if "m \<in> set ms" for m
      by (rule run_min_capped) (use that True assms(3) in auto)
    have r2: "dist_like (amin (map (?T s) ms))" if "s \<in> set ss" for s
    proof -
      have "amin (map (?T s) ms) \<in> set (map (?T s) ms)"
        by (rule amin_mem) (use that True assms(4) in auto)
      with that dl show ?thesis by auto
    qed
    have c2: "dist_like (amin (map (\<lambda>s. ?T s m) ss))" if "m \<in> set ms" for m
    proof -
      have "amin (map (\<lambda>s. ?T s m) ss) \<in> set (map (\<lambda>s. ?T s m) ss)"
        by (rule amin_mem) (use that True assms(3) in auto)
      with that dl show ?thesis by auto
    qed
    have r3: "map (\<lambda>s. run_min finfo_f8_max (map (?T s) ms)) ss = map (\<lambda>r. upd1 r finfo_f8_max) ?rs"
      using r1 by (simp cong: map_cong)
    have c3: "map (\<lambda>m. run_min finfo_f8_max (map (\<lambda>s. ?T s m) ss)) ms = map (\<lambda>r. upd1 r finfo_f8_max) ?cs"
      using c1 by (simp cong: map_cong)
    have "bundle_cost rnd64 (fmean rnd64 (map (\<lambda>r. upd1 r finfo_f8_max) ?rs))
                            (fmean rnd64 (map (\<lambda>r. upd1 r finfo_f8_max) ?cs))
          = bundle_cost rnd64 (fmean rnd64 ?rs) (fmean rnd64 ?cs)"
      by (rule capped_cost) (use assms(3,4) ls r2 c2 in auto)
    then have "?code = bmd_formula rnd64
             (bundle_minimum_distance_matrix rnd64 (stack ss) (stack ms) (length ss) (length ms) rows D)
             (length ms)"
      unfolding formula code r3 c3 .
    with True show ?thesis by simp
  next
    case False
    then obtain s m where sm: "s \<in> set ss" "m \<in> set ms" "is_nan (?T s m)" by blast
    then have "amin (map (?T s) ms) = NaN" by (intro amin_nan) auto
    with sm(1) have "\<exists>x\<in>set ?rs. is_nan x" by force
    then have "fmean rnd64 ?rs = NaN" by (rule fmean_nan)
    then have f: "bmd_formula rnd64
             (bundle_minimum_distance_matrix rnd64 (stack ss) (stack ms) (length ss) (length ms) rows D)
             (length ms) = NaN"
      unfolding formula by (simp only: bundle_cost_nan)
    have "fle (Fin 0) ?code"
      using rounding_sane_binary64 _ _ assms(5,6) by (rule bmd_nonneg) (use assms(3,4) in \<open>simp_all add: Suc_le_eq\<close>)
    then have "?code \<noteq> NaN" by (cases ?code) auto
    with f False show ?thesis by simp
  qed
qed

section \<open>Binary64 rounding of small integers\<close>

lemma rnd64_nat:
  assumes "0 < n" "n < 2 ^ 53"
  shows "rnd64 (real n) = Fin (real n)"
proof -
  obtain k where k: "2 ^ k \<le> n" "n < 2 ^ (k + 1)"
    using ex_power_ivl1 [of 2 n] assms(1) by auto
  have lt: "(2::nat) ^ k < 2 ^ 53" using k(1) assms(2) by linarith
  have "k < 53" by (rule power_less_imp_less_exp [OF _ lt]) simp
  then have k52: "k \<le> 52" by simp
  have a: "2 ^ k \<le> \<bar>real n\<bar>"
    using k(1) by (metis abs_of_nat of_nat_le_iff of_nat_numeral of_nat_power)
  have b: "\<bar>real n\<bar> < 2 ^ Suc k"
    using k(2) by (metis Suc_eq_plus1 abs_of_nat of_nat_less_iff of_nat_numeral of_nat_power)
  have p: "(2::real) ^ (52 - k) * 2 ^ k = 2 ^ 52"
    using k52 by (simp flip: power_add)
  have e: "real_of_int (int n * 2 ^ (52 - k)) * (2 ^ k / 2 ^ 52) = real n"
  proof -
    have "real_of_int (int n * 2 ^ (52 - k)) * (2 ^ k / 2 ^ 52)
          = real n * ((2 ^ (52 - k) * 2 ^ k) / 2 ^ 52)" by simp
    also have "\<dots> = real n" unfolding p by simp
    finally show ?thesis .
  qed
  have "real n \<le> 2 ^ 53" using assms(2)
    by (metis less_imp_le of_nat_le_iff of_nat_numeral of_nat_power)
  also have "\<dots> \<le> dbl_max" by (simp add: dbl_max_def)
  finally have d: "\<bar>real n\<bar> \<le> dbl_max" by simp
  have "rnd64 (real n) = Fin (real_of_int (int n * 2 ^ (52 - k)) * (2 ^ k / 2 ^ 52))"
  proof (rule rnd64_round [OF a b])
    show "2 ^ k / 2 ^ 52 * 2 ^ 52 = (2::real) ^ k" by simp
    show "\<bar>real n - real_of_int (int n * 2 ^ (52 - k)) * (2 ^ k / 2 ^ 52)\<bar> < 2 ^ k / 2 ^ 52 / 2 \<or>
          \<bar>real n - real_of_int (int n * 2 ^ (52 - k)) * (2 ^ k / 2 ^ 52)\<bar> = 2 ^ k / 2 ^ 52 / 2 \<and>
          even (int n * 2 ^ (52 - k))"
      unfolding e by simp
    show "\<bar>real_of_int (int n * 2 ^ (52 - k)) * (2 ^ k / 2 ^ 52)\<bar> \<le> dbl_max"
      unfolding e by (rule d)
  qed
  then show ?thesis unfolding e .
qed

lemma rnd64_numeral:
  "numeral w < (2::nat) ^ 53 \<Longrightarrow> rnd64 (numeral w) = Fin (numeral w)"
  using rnd64_nat [of "numeral w"] by simp

lemma rnd64_neg_numeral:
  "numeral w < (2::nat) ^ 53 \<Longrightarrow> rnd64 (- numeral w) = Fin (- numeral w)"
  using rnd64_numeral [of w] by (simp add: rnd64_neg)

lemma sqrt_squares: "sqrt 64 = 8" "sqrt 256 = 16" "sqrt 1024 = 32" "sqrt 576 = 24"
  by (rule real_sqrt_unique; simp)+

lemma ex_dists:
  "min_direct_flip_dist rnd64 (flatten [(Fin 0, Fin 0, Fin 0), (Fin 0, Fin 0, Fin 0)])
     (flatten [(Fin 8, Fin 0, Fin 0), (Fin 8, Fin 0, Fin 0)]) 2 = Fin 8"
  "min_direct_flip_dist rnd64 (flatten [(Fin 0, Fin 0, Fin 0), (Fin 0, Fin 0, Fin 0)])
     (flatten [(Fin 16, Fin 0, Fin 0), (Fin 16, Fin 0, Fin 0)]) 2 = Fin 16"
  "min_direct_flip_dist rnd64 (flatten [(Fin 40, Fin 0, Fin 0), (Fin 40, Fin 0, Fin 0)])
     (flatten [(Fin 8, Fin 0, Fin 0), (Fin 8, Fin 0, Fin 0)]) 2 = Fin 32"
  "min_direct_flip_dist rnd64 (flatten [(Fin 40, Fin 0, Fin 0), (Fin 40, Fin 0, Fin 0)])
     (flatten [(Fin 16, Fin 0, Fin 0), (Fin 16, Fin 0, Fin 0)]) 2 = Fin 24"
  by (simp_all add: min_direct_flip_dist_def mdf_point_def mdf_coord_def flatten_def upt3 upt2
        fsub_def double_of_intp_def rnd64_0 rnd64_1 rnd64_numeral rnd64_neg_numeral sqrt_squares Let_def)

lemma ex_formula: "bmd_formula rnd64 [[Fin 8, Fin 16], [Fin 32, Fin 24]] 2 = Fin 196"
  by (simp add: bmd_formula_def bundle_cost_def fmean_def fsum_def np_minimum_def upt2
        double_of_intp_def rnd64_0 rnd64_1 rnd64_numeral Let_def)

lemma rnd64_big_sq: "rnd64 (big * big) = PInf"
proof -
  have e: "big * big = 2 ^ 1200" by (simp add: big_def)
  show ?thesis unfolding e by (rule rnd64_power_overflow) simp
qed

lemma inf_dists:
  "min_direct_flip_dist rnd64 (flatten [(Fin big, Fin 0, Fin 0)]) (flatten [(Fin 0, Fin 0, Fin 0)]) 1 = PInf"
  "min_direct_flip_dist rnd64 (flatten [(Fin 0, Fin 0, Fin 0)]) (flatten [(Fin 0, Fin 0, Fin 0)]) 1 = Fin 0"
  "min_direct_flip_dist rnd64 (flatten [(Fin 0, Fin 0, Fin 0)]) (flatten [(Fin (- big), Fin 0, Fin 0)]) 1 = PInf"
  by (simp_all add: min_direct_flip_dist_def mdf_point_def mdf_coord_def flatten_def upt3 upt1
        fsub_def double_of_intp_def rnd64_0 rnd64_1 rnd64_big rnd64_big_sq Let_def)

lemma inf_formula: "bmd_formula rnd64 [[PInf, PInf], [Fin 0, PInf]] 2 = PInf"
  by (simp add: bmd_formula_def bundle_cost_def fmean_def fsum_def np_minimum_def upt2
        double_of_intp_def rnd64_0 rnd64_1 rnd64_numeral Let_def)

section \<open>The claims\<close>

text \<open>
  C1.  For two streamlines of \<open>rows\<close> points each, laid out point by point,
  \<open>min_direct_flip_dist\<close> returns the smaller of the mean distance between
  corresponding points and the mean distance between each point of the first and the
  mirrored point of the second, and the direct mean when the two are equal.  This
  holds under every rounding function.
\<close>

theorem mdf_is_min_of_direct_and_flipped_mean:
  assumes "length ps = rows" "length qs = rows"
  shows "min_direct_flip_dist rnd (flatten ps) (flatten qs) rows =
         (let direct = fmean rnd (map2 (euclid rnd) ps qs);
              flipped = fmean rnd (map2 (euclid rnd) ps (rev qs))
          in if fle direct flipped then direct else flipped)"
  using mdf_on_flatten [of qs ps rnd] assms by (simp add: mdf_spec_def)

theorem mdf_is_min_of_direct_and_flipped_mean_witness:
  "length [(Fin 0, Fin 0, Fin 0), (Fin 1, Fin 0, Fin 0)] = 2 \<and>
   length [(Fin 1, Fin 0, Fin 0), (Fin 0, Fin 0, Fin 0)] = 2 \<and>
   min_direct_flip_dist Fin (flatten [(Fin 0, Fin 0, Fin 0), (Fin 1, Fin 0, Fin 0)])
     (flatten [(Fin 1, Fin 0, Fin 0), (Fin 0, Fin 0, Fin 0)]) 2 = Fin 0"
  using mdf_is_min_of_direct_and_flipped_mean
    [of "[(Fin 0, Fin 0, Fin 0), (Fin 1, Fin 0, Fin 0)]" 2
        "[(Fin 1, Fin 0, Fin 0), (Fin 0, Fin 0, Fin 0)]" Fin]
  by (simp add: fmean_def fsum_def fsq_def fsub_def double_of_intp_def)

text \<open>
  C2, as amended.  In binary64 arithmetic (rounding to nearest, ties to even), for
  non-empty static and moving sets of fewer than \<open>2^63\<close> streamlines, all of
  \<open>rows\<close> points: \<open>_bundle_minimum_distance\<close> equals \<open>0.25 * x * x\<close>, with \<open>x\<close>
  the mean of the row minima plus the mean of the column minima of the matrix that
  \<open>_bundle_minimum_distance_matrix\<close> computes on the same inputs, if and only if no
  pairwise distance is NaN.  A distance may be \<open>+inf\<close>: a row or a column of
  \<open>+inf\<close> leaves \<open>finfo.max\<close> in its scratch cell, its mean is at least
  \<open>finfo.max / 2^63\<close>, and \<open>0.25 * x * x\<close> overflows to \<open>+inf\<close>, which is what
  the formula gives.  (When every distance is at most \<open>finfo.max\<close> the two agree
  under every rounding function: \<open>bmd_agrees_with_matrix\<close>.)
\<close>

theorem bundle_distance_agrees_with_matrix:
  assumes "\<forall>s\<in>set ss. length s = rows" "\<forall>m\<in>set ms. length m = rows"
    and "ss \<noteq> []" "ms \<noteq> []" "length ss < 2 ^ 63" "length ms < 2 ^ 63"
    and "length D = length ss" "\<forall>r\<in>set D. length r = length ms"
  shows "bundle_minimum_distance rnd64 (stack ss) (stack ms) (length ss) (length ms) rows junk
         = bmd_formula rnd64
             (bundle_minimum_distance_matrix rnd64 (stack ss) (stack ms) (length ss) (length ms) rows D)
             (length ms)
         \<longleftrightarrow> (\<forall>s\<in>set ss. \<forall>m\<in>set ms.
                \<not> is_nan (min_direct_flip_dist rnd64 (flatten s) (flatten m) rows))"
  using assms by (rule bmd64_agrees_iff)

theorem bundle_distance_agrees_with_matrix_witness:
  "min_direct_flip_dist rnd64 (flatten [(Fin 0, Fin 0, Fin 0), (Fin 0, Fin 0, Fin 0)])
     (flatten [(Fin 8, Fin 0, Fin 0), (Fin 8, Fin 0, Fin 0)]) 2 = Fin 8 \<and>
   min_direct_flip_dist rnd64 (flatten [(Fin 0, Fin 0, Fin 0), (Fin 0, Fin 0, Fin 0)])
     (flatten [(Fin 16, Fin 0, Fin 0), (Fin 16, Fin 0, Fin 0)]) 2 = Fin 16 \<and>
   min_direct_flip_dist rnd64 (flatten [(Fin 40, Fin 0, Fin 0), (Fin 40, Fin 0, Fin 0)])
     (flatten [(Fin 8, Fin 0, Fin 0), (Fin 8, Fin 0, Fin 0)]) 2 = Fin 32 \<and>
   min_direct_flip_dist rnd64 (flatten [(Fin 40, Fin 0, Fin 0), (Fin 40, Fin 0, Fin 0)])
     (flatten [(Fin 16, Fin 0, Fin 0), (Fin 16, Fin 0, Fin 0)]) 2 = Fin 24 \<and>
   bundle_minimum_distance_matrix rnd64
     (stack [[(Fin 0, Fin 0, Fin 0), (Fin 0, Fin 0, Fin 0)], [(Fin 40, Fin 0, Fin 0), (Fin 40, Fin 0, Fin 0)]])
     (stack [[(Fin 8, Fin 0, Fin 0), (Fin 8, Fin 0, Fin 0)], [(Fin 16, Fin 0, Fin 0), (Fin 16, Fin 0, Fin 0)]])
     2 2 2 [[NaN, NaN], [NaN, NaN]]
   = [[Fin 8, Fin 16], [Fin 32, Fin 24]] \<and>
   bmd_formula rnd64 [[Fin 8, Fin 16], [Fin 32, Fin 24]] 2 = Fin 196 \<and>
   bundle_minimum_distance rnd64
     (stack [[(Fin 0, Fin 0, Fin 0), (Fin 0, Fin 0, Fin 0)], [(Fin 40, Fin 0, Fin 0), (Fin 40, Fin 0, Fin 0)]])
     (stack [[(Fin 8, Fin 0, Fin 0), (Fin 8, Fin 0, Fin 0)], [(Fin 16, Fin 0, Fin 0), (Fin 16, Fin 0, Fin 0)]])
     2 2 2 (\<lambda>k. NaN) = Fin 196 \<and>
   bundle_minimum_distance_matrix rnd64
     (stack [[(Fin big, Fin 0, Fin 0)], [(Fin 0, Fin 0, Fin 0)]])
     (stack [[(Fin 0, Fin 0, Fin 0)], [(Fin (- big), Fin 0, Fin 0)]])
     2 2 1 [[NaN, NaN], [NaN, NaN]]
   = [[PInf, PInf], [Fin 0, PInf]] \<and>
   bmd_formula rnd64 [[PInf, PInf], [Fin 0, PInf]] 2 = PInf \<and>
   bundle_minimum_distance rnd64
     (stack [[(Fin big, Fin 0, Fin 0)], [(Fin 0, Fin 0, Fin 0)]])
     (stack [[(Fin 0, Fin 0, Fin 0)], [(Fin (- big), Fin 0, Fin 0)]])
     2 2 1 (\<lambda>k. NaN) = PInf"
proof -
  let ?ss = "[[(Fin 0, Fin 0, Fin 0), (Fin 0, Fin 0, Fin 0)], [(Fin 40, Fin 0, Fin 0), (Fin 40, Fin 0, Fin 0)]]"
  let ?ms = "[[(Fin 8, Fin 0, Fin 0), (Fin 8, Fin 0, Fin 0)], [(Fin 16, Fin 0, Fin 0), (Fin 16, Fin 0, Fin 0)]]"
  let ?si = "[[(Fin big, Fin 0, Fin 0)], [(Fin 0, Fin 0, Fin 0)]]"
  let ?mi = "[[(Fin 0, Fin 0, Fin 0)], [(Fin (- big), Fin 0, Fin 0)]]"
  let ?D = "[[NaN, NaN], [NaN, NaN]]"
  have len: "length ?ss = 2" "length ?ms = 2" "length ?si = 2" "length ?mi = 2" by simp_all
  have p: "\<forall>s\<in>set ?ss. length s = 2" "\<forall>m\<in>set ?ms. length m = 2"
    "?ss \<noteq> []" "?ms \<noteq> []" "length ?ss < 2 ^ 63" "length ?ms < 2 ^ 63"
    "length ?D = length ?ss" "\<forall>r\<in>set ?D. length r = length ?ms"
    by simp_all
  have q: "\<forall>s\<in>set ?si. length s = 1" "\<forall>m\<in>set ?mi. length m = 1"
    "?si \<noteq> []" "?mi \<noteq> []" "length ?si < 2 ^ 63" "length ?mi < 2 ^ 63"
    "length ?D = length ?si" "\<forall>r\<in>set ?D. length r = length ?mi"
    by simp_all
  have i: "min_direct_flip_dist rnd64 (flatten [(Fin big, Fin 0, Fin 0)]) (flatten [(Fin 0, Fin 0, Fin 0)]) (Suc 0) = PInf"
    "min_direct_flip_dist rnd64 (flatten [(Fin big, Fin 0, Fin 0)]) (flatten [(Fin (- big), Fin 0, Fin 0)]) (Suc 0) = PInf"
    "min_direct_flip_dist rnd64 (flatten [(Fin 0, Fin 0, Fin 0)]) (flatten [(Fin 0, Fin 0, Fin 0)]) (Suc 0) = Fin 0"
    "min_direct_flip_dist rnd64 (flatten [(Fin 0, Fin 0, Fin 0)]) (flatten [(Fin (- big), Fin 0, Fin 0)]) (Suc 0) = PInf"
    using inf_dists overflow_pair by simp_all
  have m1: "bundle_minimum_distance_matrix rnd64 (stack ?ss) (stack ?ms) 2 2 2 ?D
            = [[Fin 8, Fin 16], [Fin 32, Fin 24]]"
    using bmdm_on_stack [OF p(1,2,7,8), of rnd64, unfolded len] by (simp add: ex_dists)
  have m2: "bundle_minimum_distance_matrix rnd64 (stack ?si) (stack ?mi) 2 2 1 ?D
            = [[PInf, PInf], [Fin 0, PInf]]"
    using bmdm_on_stack [OF q(1,2,7,8), of rnd64, unfolded len] by (simp add: i)
  have n1: "\<forall>s\<in>set ?ss. \<forall>m\<in>set ?ms. \<not> is_nan (min_direct_flip_dist rnd64 (flatten s) (flatten m) 2)"
    by (simp add: ex_dists)
  have n2: "\<forall>s\<in>set ?si. \<forall>m\<in>set ?mi. \<not> is_nan (min_direct_flip_dist rnd64 (flatten s) (flatten m) 1)"
    by (simp add: i)
  have c1: "bundle_minimum_distance rnd64 (stack ?ss) (stack ?ms) 2 2 2 (\<lambda>k. NaN) = Fin 196"
    using bundle_distance_agrees_with_matrix [OF p, of "\<lambda>k. NaN", unfolded len] n1 by (simp only: m1 ex_formula)
  have c2: "bundle_minimum_distance rnd64 (stack ?si) (stack ?mi) 2 2 1 (\<lambda>k. NaN) = PInf"
    using bundle_distance_agrees_with_matrix [OF q, of "\<lambda>k. NaN", unfolded len] n2 by (simp only: m2 inf_formula)
  show ?thesis
    by (simp only: ex_dists m1 m2 c1 c2 ex_formula inf_formula simp_thms)
qed

text \<open>
  C2, as stated, fails.  For one static and one moving streamline of one point each,
  the static one with a NaN coordinate, the matrix is \<open>[[NaN]]\<close> and the formula gives
  NaN, while \<open>_bundle_minimum_distance\<close> keeps the initial \<open>finfo.max\<close> in both scratch
  arrays (\<open>NaN < x\<close> is false) and returns \<open>0.25 * (max + max)^2 = +inf\<close>.  The same
  happens for one static and one moving streamline of zero points.
\<close>

theorem bundle_distance_agrees_with_matrix_counterexample:
  "bundle_minimum_distance rnd64 (stack [[(NaN, Fin 0, Fin 0)]]) (stack [[(Fin 0, Fin 0, Fin 0)]])
     1 1 1 (\<lambda>k. Fin 0) = PInf \<and>
   bmd_formula rnd64
     (bundle_minimum_distance_matrix rnd64 (stack [[(NaN, Fin 0, Fin 0)]])
        (stack [[(Fin 0, Fin 0, Fin 0)]]) 1 1 1 [[Fin 0]]) 1 = NaN \<and>
   bundle_minimum_distance rnd64 (stack [[]]) (stack [[]]) 1 1 0 (\<lambda>k. Fin 0) = PInf \<and>
   bmd_formula rnd64 (bundle_minimum_distance_matrix rnd64 (stack [[]]) (stack [[]]) 1 1 0 [[Fin 0]]) 1 = NaN"
proof -
  have e: "min_direct_flip_dist rnd64 (row_ptr (stack [[]]) 0) (row_ptr (stack [[]]) 0) 0 = NaN"
    by (simp add: empty_pair rnd64_0)
  have m: "run_min finfo_f8_max [NaN] = finfo_f8_max"
    by (simp add: run_min_def)
  have 1: "bundle_minimum_distance rnd64 (stack [[(NaN, Fin 0, Fin 0)]]) (stack [[(Fin 0, Fin 0, Fin 0)]])
     1 1 1 (\<lambda>k. Fin 0) = PInf"
    by (simp add: bmd_closed_form upt1 pair_dist_def nan_pair m cost_of_two_max)
  have 2: "bmd_formula rnd64
     (bundle_minimum_distance_matrix rnd64 (stack [[(NaN, Fin 0, Fin 0)]])
        (stack [[(Fin 0, Fin 0, Fin 0)]]) 1 1 1 [[Fin 0]]) 1 = NaN"
    by (simp add: bmdm_all upt1 pair_dist_def nan_pair bmd_formula_def cost_of_two_nan)
  have 3: "bundle_minimum_distance rnd64 (stack [[]]) (stack [[]]) 1 1 0 (\<lambda>k. Fin 0) = PInf"
    by (simp add: bmd_closed_form upt1 pair_dist_def e m cost_of_two_max)
  have 4: "bmd_formula rnd64 (bundle_minimum_distance_matrix rnd64 (stack [[]]) (stack [[]]) 1 1 0 [[Fin 0]]) 1 = NaN"
    by (simp add: bmdm_all upt1 pair_dist_def e bmd_formula_def cost_of_two_nan)
  from 1 2 3 4 show ?thesis by simp
qed

text \<open>
  C3.  For a static set and a moving set whose streamlines all have \<open>rows\<close> points:
  \<open>_bundle_minimum_distance_matrix\<close>, given the two stacked buffers and a destination
  of shape \<open>S \<times> M\<close>, returns the \<open>S \<times> M\<close> matrix whose cell \<open>(i, j)\<close> is the MDF
  distance of static streamline \<open>i\<close> and moving streamline \<open>j\<close>, and nothing of the
  destination's former content is left, so every cell is written; and
  \<open>distance_matrix_mdf\<close>, given two non-empty sequences of references to these
  streamlines, returns a reference to a new \<open>S \<times> M\<close> array that holds the same
  distances, row after row.
\<close>

theorem distance_matrix_cells:
  assumes "\<forall>s\<in>set ss. length s = rows" "\<forall>m\<in>set ms. length m = rows"
  shows "(length D = length ss \<and> (\<forall>r\<in>set D. length r = length ms) \<longrightarrow>
            bundle_minimum_distance_matrix rnd (stack ss) (stack ms) (length ss) (length ms) rows D
            = map (\<lambda>s. map (\<lambda>m. min_direct_flip_dist rnd (flatten s) (flatten m) rows) ms) ss) \<and>
         (holds st a ss \<and> holds st b ms \<and> a \<noteq> [] \<and> b \<noteq> [] \<longrightarrow>
            (\<exists>st'. distance_matrix_mdf rnd a b st = (Inr (next_addr st + 2), st') \<and>
               heap st' (next_addr st + 2)
               = Some (DoubleMatrix (length ms)
                   (concat (map (\<lambda>s. map (\<lambda>m. min_direct_flip_dist rnd (flatten s) (flatten m) rows) ms) ss)))))"
proof (intro conjI impI)
  assume "length D = length ss \<and> (\<forall>r\<in>set D. length r = length ms)"
  with assms show "bundle_minimum_distance_matrix rnd (stack ss) (stack ms) (length ss) (length ms) rows D
            = map (\<lambda>s. map (\<lambda>m. min_direct_flip_dist rnd (flatten s) (flatten m) rows) ms) ss"
    by (intro bmdm_on_stack) simp_all
next
  assume h: "holds st a ss \<and> holds st b ms \<and> a \<noteq> [] \<and> b \<noteq> []"
  from distance_matrix_mdf_ok [of st a ss b ms rows rnd] h assms
  show "\<exists>st'. distance_matrix_mdf rnd a b st = (Inr (next_addr st + 2), st') \<and>
               heap st' (next_addr st + 2)
               = Some (DoubleMatrix (length ms)
                   (concat (map (\<lambda>s. map (\<lambda>m. min_direct_flip_dist rnd (flatten s) (flatten m) rows) ms) ss)))"
    by blast
qed

theorem distance_matrix_cells_witness:
  "bundle_minimum_distance_matrix Fin
     (stack [[(Fin 0, Fin 0, Fin 0)], [(Fin 1, Fin 0, Fin 0)]]) (stack [[(Fin 1, Fin 0, Fin 0)]])
     2 1 1 [[NaN], [NaN]]
   = [[Fin 1], [Fin 0]] \<and>
   holds one_each [0] [[(Fin 0, Fin 0, Fin 0)]] \<and> holds one_each [1] [[(Fin 1, Fin 0, Fin 0)]] \<and>
   (\<exists>st'. distance_matrix_mdf Fin [0] [1] one_each = (Inr 4, st') \<and>
      heap st' 4 = Some (DoubleMatrix 1 [Fin 1]))"
proof -
  have d: "min_direct_flip_dist Fin (flatten [(Fin 0, Fin 0, Fin 0)]) (flatten [(Fin 1, Fin 0, Fin 0)]) (Suc 0) = Fin 1"
    "min_direct_flip_dist Fin (flatten [(Fin 1, Fin 0, Fin 0)]) (flatten [(Fin 1, Fin 0, Fin 0)]) (Suc 0) = Fin 0"
    by (simp_all add: min_direct_flip_dist_def mdf_point_def mdf_coord_def flatten_def upt3 upt1
        fsub_def double_of_intp_def Let_def)
  have h: "holds one_each [0] [[(Fin 0, Fin 0, Fin 0)]]" "holds one_each [1] [[(Fin 1, Fin 0, Fin 0)]]"
    by (auto simp: holds_def one_each_def)
  have n: "Suc (Suc (next_addr one_each)) = 4" by (simp add: one_each_def)
  from distance_matrix_cells [of "[[(Fin 0, Fin 0, Fin 0)], [(Fin 1, Fin 0, Fin 0)]]" 1
      "[[(Fin 1, Fin 0, Fin 0)]]" "[[NaN], [NaN]]" Fin]
  have 1: "bundle_minimum_distance_matrix Fin
     (stack [[(Fin 0, Fin 0, Fin 0)], [(Fin 1, Fin 0, Fin 0)]]) (stack [[(Fin 1, Fin 0, Fin 0)]])
     2 1 1 [[NaN], [NaN]] = [[Fin 1], [Fin 0]]"
    by (simp add: d numeral_2_eq_2)
  from distance_matrix_cells [of "[[(Fin 0, Fin 0, Fin 0)]]" 1 "[[(Fin 1, Fin 0, Fin 0)]]" "[]" Fin
      one_each "[0]" "[1]"] h
  have 2: "\<exists>st'. distance_matrix_mdf Fin [0] [1] one_each = (Inr 4, st') \<and>
      heap st' 4 = Some (DoubleMatrix 1 [Fin 1])"
    by (simp add: d n)
  from 1 2 h show ?thesis by blast
qed

text \<open>
  C4, as amended.  When the first elements of the two sequences have different point
  counts, \<open>distance_matrix_mdf\<close> raises \<open>ValueError\<close> without having called
  \<open>min_direct_flip_dist\<close>; by then it has allocated the two object arrays and the
  zero-filled output matrix, and nothing else.
\<close>

theorem shape_mismatch_raises:
  assumes "a \<noteq> []" "b \<noteq> []"
    and "heap s (a ! 0) = Some (Streamline ca pa)" "heap s (b ! 0) = Some (Streamline cb pb)"
    and "a ! 0 < next_addr s" "b ! 0 < next_addr s"
    and "length pa \<noteq> length pb"
  shows "distance_matrix_mdf rnd a b s =
         (Inl ValueError,
          s\<lparr>heap := (heap s)(next_addr s \<mapsto> np_zeros_object (length a),
                               Suc (next_addr s) \<mapsto> np_zeros_object (length b),
                               Suc (Suc (next_addr s)) \<mapsto> np_zeros_double (length a) (length b)),
            next_addr := Suc (Suc (Suc (next_addr s)))\<rparr>) \<and>
         mdf_calls (snd (distance_matrix_mdf rnd a b s)) = mdf_calls s"
  using mdf_shape_mismatch [OF assms, of rnd] by simp

theorem shape_mismatch_raises_witness:
  "fst (distance_matrix_mdf Fin [0] [1] two_tracks) = Inl ValueError \<and>
   mdf_calls (snd (distance_matrix_mdf Fin [0] [1] two_tracks)) = 0 \<and>
   next_addr (snd (distance_matrix_mdf Fin [0] [1] two_tracks)) = 5"
  using shape_mismatch_raises [of "[0]" "[1]" two_tracks True "[(Fin 0, Fin 0, Fin 0)]" True
      "[(Fin 0, Fin 0, Fin 0), (Fin 1, Fin 0, Fin 0)]" Fin]
  by (simp add: two_tracks_def)

text \<open>
  C4, as stated, fails: when the error is raised the output buffer exists.  For one
  streamline of one point against one of two points, address 4 is free before the
  call and holds the \<open>1 \<times> 1\<close> zero matrix after it.
\<close>

theorem shape_mismatch_counterexample:
  "fst (distance_matrix_mdf rnd64 [0] [1] two_tracks) = Inl ValueError \<and>
   heap two_tracks 4 = None \<and>
   heap (snd (distance_matrix_mdf rnd64 [0] [1] two_tracks)) 4 = Some (DoubleMatrix 1 [Fin 0])"
  using mdf_shape_mismatch [of "[0]" "[1]" two_tracks True "[(Fin 0, Fin 0, Fin 0)]" True
      "[(Fin 0, Fin 0, Fin 0), (Fin 1, Fin 0, Fin 0)]" rnd64]
  by (simp add: two_tracks_def np_zeros_double_def)

text \<open>
  C5, as amended.  Before any distance is folded in, every element of the two scratch
  arrays holds \<open>np.finfo('f8').max\<close>, the largest finite double
  \<open>(2^53 - 1) * 2^971\<close>, whatever \<open>malloc\<close> left in them.
\<close>

theorem scratch_arrays_start_at_finfo_max:
  "min_j (bmd_init n m (bmd_start st mv junk n m)) = replicate n finfo_f8_max \<and>
   min_i (bmd_init n m (bmd_start st mv junk n m)) = replicate m finfo_f8_max \<and>
   finfo_f8_max = Fin ((2 ^ 53 - 1) * 2 ^ 971)"
  by (simp add: bmd_init_start finfo_f8_max_def dbl_max_def)

theorem scratch_arrays_start_at_finfo_max_witness:
  "min_j (bmd_init 2 1 (bmd_start [] [] (\<lambda>k. NaN) 2 1)) = [finfo_f8_max, finfo_f8_max] \<and>
   min_i (bmd_init 2 1 (bmd_start [] [] (\<lambda>k. NaN) 2 1)) = [finfo_f8_max]"
  using scratch_arrays_start_at_finfo_max [of 2 1 "[]" "[]" "\<lambda>k. NaN"]
  by (simp add: numeral_2_eq_2)

text \<open>C5, as stated, fails: the elements are finite, not \<open>+infinity\<close>.\<close>

theorem scratch_arrays_start_at_finfo_max_counterexample:
  "min_j (bmd_init 1 1 (bmd_start [] [] (\<lambda>k. Fin 0) 1 1)) ! 0 \<noteq> PInf \<and>
   min_i (bmd_init 1 1 (bmd_start [] [] (\<lambda>k. Fin 0) 1 1)) ! 0 \<noteq> PInf"
  by (simp add: bmd_init_start finfo_f8_max_def)

text \<open>
  C6, as amended.  For two streamlines of the same positive point count whose
  coordinates are all finite, \<open>min_direct_flip_dist\<close> is \<open>>= 0\<close> (a non-negative
  finite double or \<open>+inf\<close>, never NaN), under every sane rounding function.
\<close>

theorem mdf_nonneg:
  assumes "rounding_sane rnd" "ps \<noteq> []" "length qs = length ps" "length ps < 2 ^ 63"
    and "\<forall>p\<in>set ps. finite_point p" "\<forall>q\<in>set qs. finite_point q"
  shows "fle (Fin 0) (min_direct_flip_dist rnd (flatten ps) (flatten qs) (length ps))"
proof -
  have "real (length ps) \<le> 2 ^ 63"
    using assms(4) by (metis less_imp_le of_nat_le_iff of_nat_numeral of_nat_power)
  with assms show ?thesis
    by (simp add: mdf_on_flatten mdf_spec_nonneg)
qed

theorem mdf_nonneg_witness:
  "rounding_sane Fin \<and>
   fle (Fin 0) (min_direct_flip_dist Fin (flatten [(Fin 0, Fin 0, Fin 0)])
                  (flatten [(Fin 1, Fin 0, Fin 0)]) (length [(Fin 0 :: double, Fin 0 :: double, Fin 0 :: double)])) \<and>
   min_direct_flip_dist Fin (flatten [(Fin 0, Fin 0, Fin 0)]) (flatten [(Fin 1, Fin 0, Fin 0)]) 1 = Fin 1 \<and>
   rounding_sane rnd64 \<and>
   fle (Fin 0) (min_direct_flip_dist rnd64 (flatten [(Fin 0, Fin 0, Fin 0)])
                  (flatten [(Fin 1, Fin 0, Fin 0)]) (length [(Fin 0 :: double, Fin 0 :: double, Fin 0 :: double)]))"
  using mdf_nonneg [of Fin "[(Fin 0, Fin 0, Fin 0)]" "[(Fin 1, Fin 0, Fin 0)]"]
    mdf_nonneg [of rnd64 "[(Fin 0, Fin 0, Fin 0)]" "[(Fin 1, Fin 0, Fin 0)]"]
  by (simp add: rounding_sane_exact rounding_sane_binary64 min_direct_flip_dist_def mdf_point_def mdf_coord_def
        flatten_def upt3 upt1 fsub_def double_of_intp_def Let_def)

text \<open>
  C6, as stated, fails: with \<open>rows = 0\<close> both sums are zero, the division is
  \<open>0.0 / 0.0\<close>, and the result is NaN, which is not \<open>>= 0\<close>; and a coordinate that is
  infinite in both streamlines gives \<open>inf - inf\<close>, again NaN.
\<close>

theorem mdf_nonneg_counterexample:
  "\<not> fle (Fin 0) (min_direct_flip_dist rnd64 [] [] 0) \<and>
   \<not> fle (Fin 0) (min_direct_flip_dist rnd64 (flatten [(PInf, Fin 0, Fin 0)])
                     (flatten [(PInf, Fin 0, Fin 0)]) 1)"
  by (simp add: min_direct_flip_dist_def mdf_point_def mdf_coord_def flatten_def upt3 upt1
        fsub_def double_of_intp_def rnd64_def Let_def)

text \<open>
  C7, as amended.  For a streamline of at least one point whose coordinates are all
  finite, the distance to its own reversal is exactly zero, under every sane rounding
  function.
\<close>

theorem mdf_reversed_is_zero:
  assumes "rounding_sane rnd" "ps \<noteq> []" "\<forall>p\<in>set ps. finite_point p"
  shows "min_direct_flip_dist rnd (flatten ps) (flatten (rev ps)) (length ps) = Fin 0"
  using assms by (simp add: mdf_on_flatten mdf_spec_reversed)

theorem mdf_reversed_is_zero_witness:
  "rounding_sane Fin \<and>
   min_direct_flip_dist Fin (flatten [(Fin 0, Fin 0, Fin 0), (Fin 1, Fin 0, Fin 0)])
     (flatten (rev [(Fin 0, Fin 0, Fin 0), (Fin 1, Fin 0, Fin 0)]))
     (length [(Fin 0 :: double, Fin 0 :: double, Fin 0 :: double), (Fin 1, Fin 0, Fin 0)]) = Fin 0 \<and>
   rounding_sane rnd64 \<and>
   min_direct_flip_dist rnd64 (flatten [(Fin 0, Fin 0, Fin 0), (Fin 1, Fin 0, Fin 0)])
     (flatten (rev [(Fin 0, Fin 0, Fin 0), (Fin 1, Fin 0, Fin 0)]))
     (length [(Fin 0 :: double, Fin 0 :: double, Fin 0 :: double), (Fin 1, Fin 0, Fin 0)]) = Fin 0"
  using mdf_reversed_is_zero [of Fin "[(Fin 0, Fin 0, Fin 0), (Fin 1, Fin 0, Fin 0)]"]
    mdf_reversed_is_zero [of rnd64 "[(Fin 0, Fin 0, Fin 0), (Fin 1, Fin 0, Fin 0)]"]
  by (simp add: rounding_sane_exact rounding_sane_binary64)

text \<open>
  C7, as stated, fails: the empty streamline (\<open>rows = 0\<close>) gives \<open>0.0 / 0.0\<close>, and a
  streamline with an infinite coordinate gives \<open>inf - inf\<close>; the result is NaN in
  both cases, not zero.
\<close>

theorem mdf_reversed_is_zero_counterexample:
  "min_direct_flip_dist rnd64 (flatten []) (flatten (rev [])) (length ([] :: point list)) = NaN \<and>
   min_direct_flip_dist rnd64 (flatten [(PInf, Fin 0, Fin 0)])
     (flatten (rev [(PInf, Fin 0, Fin 0)])) (length [(PInf, Fin 0 :: double, Fin 0 :: double)]) = NaN"
  by (simp add: min_direct_flip_dist_def mdf_point_def mdf_coord_def flatten_def upt3 upt1
        fsub_def double_of_intp_def rnd64_def Let_def)

text \<open>
  C8, as amended.  In exact arithmetic \<open>min_direct_flip_dist\<close> is symmetric in its two
  streamlines.  In double arithmetic, under every rounding function that is symmetric
  about zero, exchanging the streamlines leaves the direct mean as it is and sums the
  same flipped distances in the opposite order.
\<close>

theorem mdf_commutes:
  assumes "length qs = length ps"
  shows "min_direct_flip_dist Fin (flatten qs) (flatten ps) (length ps)
         = min_direct_flip_dist Fin (flatten ps) (flatten qs) (length ps) \<and>
         (rounding_odd rnd \<longrightarrow>
          min_direct_flip_dist rnd (flatten qs) (flatten ps) (length ps)
          = (let direct = fmean rnd (map2 (euclid rnd) ps qs);
                 flipped = fmean rnd (rev (map2 (euclid rnd) ps (rev qs)))
             in if fle direct flipped then direct else flipped))"
  using mdf_exact_commute [OF assms] mdf_spec_swapped [OF _ assms, of rnd]
    mdf_on_flatten [of ps qs rnd] assms
  by simp

theorem mdf_commutes_witness:
  "min_direct_flip_dist Fin (flatten [(Fin 1, Fin 0, Fin 0), (Fin 0, Fin 0, Fin 0)])
     (flatten [(Fin 0, Fin 0, Fin 0), (Fin 0, Fin 0, Fin 0)]) 2 = Fin (1 / 2) \<and>
   min_direct_flip_dist Fin (flatten [(Fin 0, Fin 0, Fin 0), (Fin 0, Fin 0, Fin 0)])
     (flatten [(Fin 1, Fin 0, Fin 0), (Fin 0, Fin 0, Fin 0)]) 2 = Fin (1 / 2) \<and>
   rounding_odd Fin \<and> rounding_odd rnd64"
  using mdf_commutes [of "[(Fin 1, Fin 0, Fin 0), (Fin 0, Fin 0, Fin 0)]"
      "[(Fin 0, Fin 0, Fin 0), (Fin 0, Fin 0, Fin 0)]" Fin]
  by (simp add: rounding_odd_exact rounding_odd_binary64 min_direct_flip_dist_def mdf_point_def mdf_coord_def flatten_def
        upt3 upt2 fsub_def double_of_intp_def Let_def)

text \<open>
  C8, as stated, fails in binary64 arithmetic.  With \<open>a = [(1,0,0), (1,0,0), (1,0,0)]\<close>
  and \<open>b = [(0,0,0), (0,0,0), (1 - 2^53,0,0)]\<close> the direct distances are \<open>1, 1, 2^53\<close>
  and the flipped ones \<open>2^53, 1, 1\<close>.  For \<open>(a, b)\<close> the flipped sum is
  \<open>(2^53 + 1) + 1 = 2^53\<close> (two ties to even) and the result is \<open>2^53 / 3\<close> rounded;
  for \<open>(b, a)\<close> the flipped sum is \<open>(1 + 1) + 2^53 = 2^53 + 2\<close>, as is the direct
  sum, and the result is \<open>(2^53 + 2) / 3\<close> rounded, one unit in the last place more.
\<close>

theorem mdf_commutes_counterexample:
  "min_direct_flip_dist rnd64
     (flatten [(Fin 1, Fin 0, Fin 0), (Fin 1, Fin 0, Fin 0), (Fin 1, Fin 0, Fin 0)])
     (flatten [(Fin 0, Fin 0, Fin 0), (Fin 0, Fin 0, Fin 0), (Fin (1 - 2 ^ 53), Fin 0, Fin 0)]) 3
   \<noteq> min_direct_flip_dist rnd64
     (flatten [(Fin 0, Fin 0, Fin 0), (Fin 0, Fin 0, Fin 0), (Fin (1 - 2 ^ 53), Fin 0, Fin 0)])
     (flatten [(Fin 1, Fin 0, Fin 0), (Fin 1, Fin 0, Fin 0), (Fin 1, Fin 0, Fin 0)]) 3"
proof -
  have "min_direct_flip_dist rnd64
     (flatten [(Fin 1, Fin 0, Fin 0), (Fin 1, Fin 0, Fin 0), (Fin 1, Fin 0, Fin 0)])
     (flatten [(Fin 0, Fin 0, Fin 0), (Fin 0, Fin 0, Fin 0), (Fin (1 - 2 ^ 53), Fin 0, Fin 0)]) 3
     = Fin (6004799503160661 / 2)"
    using mdf_on_flatten [of "[(Fin 0, Fin 0, Fin 0), (Fin 0, Fin 0, Fin 0), (Fin (1 - 2 ^ 53), Fin 0, Fin 0)]"
        "[(Fin 1, Fin 0, Fin 0), (Fin 1, Fin 0, Fin 0), (Fin 1, Fin 0, Fin 0)]" rnd64] ce_ab
    by (simp add: numeral_3_eq_3)
  moreover have "min_direct_flip_dist rnd64
     (flatten [(Fin 0, Fin 0, Fin 0), (Fin 0, Fin 0, Fin 0), (Fin (1 - 2 ^ 53), Fin 0, Fin 0)])
     (flatten [(Fin 1, Fin 0, Fin 0), (Fin 1, Fin 0, Fin 0), (Fin 1, Fin 0, Fin 0)]) 3
     = Fin (6004799503160663 / 2)"
    using mdf_on_flatten [of "[(Fin 1, Fin 0, Fin 0), (Fin 1, Fin 0, Fin 0), (Fin 1, Fin 0, Fin 0)]"
        "[(Fin 0, Fin 0, Fin 0), (Fin 0, Fin 0, Fin 0), (Fin (1 - 2 ^ 53), Fin 0, Fin 0)]" rnd64] ce_ba
    by (simp add: numeral_3_eq_3)
  ultimately show ?thesis by simp
qed

text \<open>
  C9.  No operation writes to the caller's streamlines.  \<open>min_direct_flip_dist\<close> only
  returns a double.  After \<open>distance_matrix_mdf\<close>, whether it returns or raises, every
  object that existed before the call is what it was: the function writes only to the
  three arrays and the copies it allocates.  After \<open>_bundle_minimum_distance\<close> the two
  input buffers are what they were: it writes only to its two scratch blocks and its
  local variables.
\<close>

theorem inputs_are_not_modified:
  "(\<forall>p<next_addr s. heap (snd (distance_matrix_mdf rnd a b s)) p = heap s p) \<and>
   stat (bmd_run rnd st mv n m rows junk) = st \<and>
   mov (bmd_run rnd st mv n m rows junk) = mv"
  using keeps_distance_matrix_mdf [of s rnd a b] bmd_run_inputs [of rnd st mv n m rows junk]
  by (simp add: keeps_def)

theorem inputs_are_not_modified_witness:
  "heap (snd (distance_matrix_mdf Fin [0] [1] one_each)) 0 = Some (Streamline True [(Fin 0, Fin 0, Fin 0)]) \<and>
   heap (snd (distance_matrix_mdf Fin [0] [1] one_each)) 1 = Some (Streamline False [(Fin 1, Fin 0, Fin 0)]) \<and>
   stat (bmd_run Fin [Fin 0, Fin 0, Fin 0] [Fin 1, Fin 0, Fin 0] 1 1 1 (\<lambda>k. NaN)) = [Fin 0, Fin 0, Fin 0] \<and>
   mov (bmd_run Fin [Fin 0, Fin 0, Fin 0] [Fin 1, Fin 0, Fin 0] 1 1 1 (\<lambda>k. NaN)) = [Fin 1, Fin 0, Fin 0]"
  using inputs_are_not_modified [of one_each Fin "[0]" "[1]" "[Fin 0, Fin 0, Fin 0]"
      "[Fin 1, Fin 0, Fin 0]" 1 1 1 "\<lambda>k. NaN"]
  by (simp add: one_each_def)

text \<open>
  C10, as amended.  Under every sane rounding function: the cast of a count
  \<open>n >= 1\<close> is not zero, so no division by zero occurs; for \<open>rows >= 1\<close> and finite
  coordinates \<open>min_direct_flip_dist\<close> is \<open>>= 0\<close>, and for \<open>static_size >= 1\<close> and
  \<open>moving_size >= 1\<close> so is \<open>_bundle_minimum_distance\<close>, whatever the inputs (neither
  is NaN, either can be \<open>+inf\<close>); for \<open>rows = 0\<close> \<open>min_direct_flip_dist\<close> returns NaN,
  and for an empty static or moving set \<open>_bundle_minimum_distance\<close> returns NaN.
\<close>

theorem unguarded_divisions:
  assumes "rounding_sane rnd"
  shows "(1 \<le> n \<longrightarrow> double_of_intp rnd n \<noteq> Fin 0) \<and>
         (ps \<noteq> [] \<and> length qs = length ps \<and> length ps < 2 ^ 63 \<and>
          (\<forall>p\<in>set ps. finite_point p) \<and> (\<forall>q\<in>set qs. finite_point q) \<longrightarrow>
            fle (Fin 0) (min_direct_flip_dist rnd (flatten ps) (flatten qs) (length ps))) \<and>
         (1 \<le> n \<and> 1 \<le> m \<and> n < 2 ^ 63 \<and> m < 2 ^ 63 \<longrightarrow>
            fle (Fin 0) (bundle_minimum_distance rnd st mv n m rows junk)) \<and>
         min_direct_flip_dist rnd a b 0 = NaN \<and>
         bundle_minimum_distance rnd st mv 0 m rows junk = NaN \<and>
         bundle_minimum_distance rnd st mv n 0 rows junk = NaN"
proof -
  have 1: "1 \<le> n \<longrightarrow> double_of_intp rnd n \<noteq> Fin 0"
    using sane_count [OF assms, of n] by auto
  have 2: "ps \<noteq> [] \<and> length qs = length ps \<and> length ps < 2 ^ 63 \<and>
          (\<forall>p\<in>set ps. finite_point p) \<and> (\<forall>q\<in>set qs. finite_point q) \<longrightarrow>
            fle (Fin 0) (min_direct_flip_dist rnd (flatten ps) (flatten qs) (length ps))"
    using assms by (auto simp: mdf_on_flatten intro!: mdf_spec_nonneg count_bound)
  have 3: "1 \<le> n \<and> 1 \<le> m \<and> n < 2 ^ 63 \<and> m < 2 ^ 63 \<longrightarrow>
            fle (Fin 0) (bundle_minimum_distance rnd st mv n m rows junk)"
    using assms by (auto intro: bmd_nonneg)
  have 4: "min_direct_flip_dist rnd a b 0 = NaN"
    using assms by (simp add: empty_pair sane_zero)
  show ?thesis
    using 1 2 3 4 bmd_empty [OF assms] by blast
qed

theorem unguarded_divisions_witness:
  "rounding_sane Fin \<and> double_of_intp Fin 1 \<noteq> Fin 0 \<and>
   fle (Fin 0) (min_direct_flip_dist Fin (flatten [(Fin 0, Fin 0, Fin 0)])
                  (flatten [(Fin 1, Fin 0, Fin 0)]) (length [(Fin 0 :: double, Fin 0 :: double, Fin 0 :: double)])) \<and>
   fle (Fin 0) (bundle_minimum_distance Fin [] [] 1 1 0 (\<lambda>k. NaN)) \<and>
   min_direct_flip_dist Fin [] [] 0 = NaN \<and>
   bundle_minimum_distance Fin [] [] 0 1 0 (\<lambda>k. NaN) = NaN \<and>
   bundle_minimum_distance Fin [] [] 1 0 0 (\<lambda>k. NaN) = NaN \<and>
   rounding_sane rnd64 \<and> double_of_intp rnd64 1 \<noteq> Fin 0 \<and>
   fle (Fin 0) (bundle_minimum_distance rnd64 [] [] 1 1 0 (\<lambda>k. NaN)) \<and>
   bundle_minimum_distance rnd64 [] [] 0 1 0 (\<lambda>k. NaN) = NaN"
  using unguarded_divisions [OF rounding_sane_binary64, of 1 "[]" "[]" 1 "[]" "[]" 0 "\<lambda>k. NaN" "[]" "[]"]
    unguarded_divisions [OF rounding_sane_binary64, of 0 "[]" "[]" 1 "[]" "[]" 0 "\<lambda>k. NaN" "[]" "[]"]
    unguarded_divisions [OF rounding_sane_exact, of 1 "[(Fin 0, Fin 0, Fin 0)]"
      "[(Fin 1, Fin 0, Fin 0)]" 1 "[]" "[]" 0 "\<lambda>k. NaN" "[]" "[]"]
    unguarded_divisions [OF rounding_sane_exact, of 0 "[]" "[]" 1 "[]" "[]" 0 "\<lambda>k. NaN" "[]" "[]"]
    unguarded_divisions [OF rounding_sane_exact, of 1 "[]" "[]" 0 "[]" "[]" 0 "\<lambda>k. NaN" "[]" "[]"]
  by (simp add: rounding_sane_exact rounding_sane_binary64)

text \<open>
  C10, as stated, fails where it promises finite results.  In binary64 arithmetic the
  two one-point streamlines \<open>[(2^600, 0, 0)]\<close> and \<open>[(-2^600, 0, 0)]\<close> have
  finite coordinates and \<open>rows = 1\<close>, but the squared difference \<open>2^1202\<close> overflows
  and the distance is \<open>+inf\<close>.
\<close>

theorem unguarded_divisions_counterexample:
  "big = 2 ^ 600 \<and>
   \<not> is_finite (min_direct_flip_dist rnd64 (flatten [(Fin big, Fin 0, Fin 0)])
                  (flatten [(Fin (- big), Fin 0, Fin 0)]) 1)"
  by (rule conjI [OF big_def]) (simp only: overflow_pair is_finite.simps not_False_eq_True)

end
